theory Spec2Isabelle
  imports Main
begin

section \<open>Values and completions\<close>

text \<open>
  JavaScript values as far as the reactive core inspects them. Primitives compare by
  value and objects by reference under \<open>===\<close>, so an array is a reference \<open>Ref r\<close> into a
  store of arrays and HOL equality on \<open>val\<close> is strict equality. Numbers are integers
  here; \<open>NaN\<close>, the one value that is not strictly equal to itself, is outside the model.
\<close>

datatype val = Undefined | Null | Bool bool | Num int | Str string | Ref nat

text \<open>A call either returns a value or throws; the state it leaves behind is kept
  beside the completion, since an exception does not roll anything back.\<close>

datatype 'a completion = Return 'a | Throw string

section \<open>state.ts: State and ComputedState\<close>

text \<open>
  Objects live in a heap and are named by their address. A listener is a callback
  function, identified by a number (JS function identity). What a callback does is
  not part of state.ts: a callback is taken to return normally and not to call back
  into the cells, and its invocation is recorded in \<open>trace\<close> together with the
  argument it received. A call of \<open>recompute()\<close> is recorded as well.
\<close>

type_synonym listener = nat

datatype source = OfState nat | OfComputed nat

datatype event = Invoke source listener val | Recompute nat

record State =
  s_value :: val
  s_listeners :: "listener list"
  s_computedStates :: "nat list"

text \<open>
  A compute function is a closure without arguments. It is pure: its result depends
  only on what it reads, the contents of the arrays and the current values of the
  State objects.
\<close>

type_synonym compute = "(nat \<Rightarrow> val list option) \<Rightarrow> (nat \<Rightarrow> val) \<Rightarrow> val"

record ComputedState =
  c_value :: val
  c_computeFn :: compute
  c_dependencies :: "nat list"
  c_listeners :: "listener list"

record heap =
  states :: "nat \<Rightarrow> State option"
  computeds :: "nat \<Rightarrow> ComputedState option"
  arrays :: "nat \<Rightarrow> val list option"
  nextState :: nat
  nextComputed :: nat
  trace :: "event list"

definition heap_init :: heap where
  "heap_init = \<lparr>states = Map.empty, computeds = Map.empty, arrays = Map.empty,
                 nextState = 0, nextComputed = 0, trace = []\<rparr>"

text \<open>
  A JS \<open>Set\<close> iterates in insertion order and holds each member once: a list without
  duplicates, \<open>add\<close> appending only a new member.
\<close>

definition set_add :: "'a \<Rightarrow> 'a list \<Rightarrow> 'a list" where
  "set_add x xs = (if x \<in> set xs then xs else xs @ [x])"

definition set_delete :: "'a \<Rightarrow> 'a list \<Rightarrow> 'a list" where
  "set_delete x xs = removeAll x xs"

definition valueOf :: "heap \<Rightarrow> nat \<Rightarrow> val" where
  "valueOf h a = (case states h a of Some s \<Rightarrow> s_value s | None \<Rightarrow> Undefined)"

definition cvalueOf :: "heap \<Rightarrow> nat \<Rightarrow> val" where
  "cvalueOf h k = (case computeds h k of Some c \<Rightarrow> c_value c | None \<Rightarrow> Undefined)"

definition isArray :: "heap \<Rightarrow> val \<Rightarrow> bool" where
  "isArray h v = (case v of Ref r \<Rightarrow> arrays h r \<noteq> None | _ \<Rightarrow> False)"

text \<open>\<open>listener(this._value)\<close>: the argument is read from the object when the
  listener is called.\<close>

fun this_value :: "source \<Rightarrow> heap \<Rightarrow> val" where
  "this_value (OfState a) h = valueOf h a"
| "this_value (OfComputed k) h = cvalueOf h k"

definition call_listener :: "source \<Rightarrow> heap \<Rightarrow> listener \<Rightarrow> heap" where
  "call_listener src h l = h\<lparr>trace := trace h @ [Invoke src l (this_value src h)]\<rparr>"

text \<open>\<open>new State(initialValue)\<close>. An operation on an address that holds no object
  cannot be written in the source; the model leaves the heap as it is.\<close>

definition State_new :: "val \<Rightarrow> heap \<Rightarrow> nat \<times> heap" where
  "State_new initialValue h =
     (nextState h,
      h\<lparr>states := (states h)(nextState h \<mapsto>
             \<lparr>s_value = initialValue, s_listeners = [], s_computedStates = []\<rparr>),
        nextState := Suc (nextState h)\<rparr>)"

definition ComputedState_recompute :: "nat \<Rightarrow> heap \<Rightarrow> heap" where
  "ComputedState_recompute k h =
     (case computeds h k of
        None \<Rightarrow> h
      | Some c \<Rightarrow>
          let h0 = h\<lparr>trace := trace h @ [Recompute k]\<rparr>;
              newValue = c_computeFn c (arrays h0) (valueOf h0)
          in if newValue \<noteq> c_value c then
               let h1 = h0\<lparr>computeds := (computeds h0)(k \<mapsto> c\<lparr>c_value := newValue\<rparr>)\<rparr>
               in foldl (call_listener (OfComputed k)) h1 (c_listeners c)
             else h0)"

definition State_notify :: "nat \<Rightarrow> heap \<Rightarrow> heap" where
  "State_notify a h =
     (case states h a of
        None \<Rightarrow> h
      | Some s \<Rightarrow>
          let h1 = foldl (call_listener (OfState a)) h (s_listeners s)
          in foldl (\<lambda>h' k. ComputedState_recompute k h') h1 (s_computedStates s))"

definition State_set_value :: "nat \<Rightarrow> val \<Rightarrow> heap \<Rightarrow> heap" where
  "State_set_value a newValue h =
     (case states h a of
        None \<Rightarrow> h
      | Some s \<Rightarrow>
          if newValue \<noteq> s_value s then
            State_notify a (h\<lparr>states := (states h)(a \<mapsto> s\<lparr>s_value := newValue\<rparr>)\<rparr>)
          else h)"

text \<open>\<open>subscribe\<close> returns the closure \<open>() => this.listeners.delete(listener)\<close>;
  calling that closure is \<open>State_unsubscribe\<close>.\<close>

definition State_subscribe :: "nat \<Rightarrow> listener \<Rightarrow> heap \<Rightarrow> heap" where
  "State_subscribe a l h =
     (case states h a of
        None \<Rightarrow> h
      | Some s \<Rightarrow> h\<lparr>states := (states h)(a \<mapsto> s\<lparr>s_listeners := set_add l (s_listeners s)\<rparr>)\<rparr>)"

definition State_unsubscribe :: "nat \<Rightarrow> listener \<Rightarrow> heap \<Rightarrow> heap" where
  "State_unsubscribe a l h =
     (case states h a of
        None \<Rightarrow> h
      | Some s \<Rightarrow> h\<lparr>states := (states h)(a \<mapsto> s\<lparr>s_listeners := set_delete l (s_listeners s)\<rparr>)\<rparr>)"

text \<open>The constructor of ComputedState: compute the initial value, then
  \<open>dep.computedStates.add(this)\<close> for every dependency.\<close>

definition register_computed :: "nat \<Rightarrow> heap \<Rightarrow> nat \<Rightarrow> heap" where
  "register_computed k h dep =
     (case states h dep of
        None \<Rightarrow> h
      | Some s \<Rightarrow> h\<lparr>states := (states h)(dep \<mapsto>
                       s\<lparr>s_computedStates := set_add k (s_computedStates s)\<rparr>)\<rparr>)"

definition ComputedState_new :: "compute \<Rightarrow> nat list \<Rightarrow> heap \<Rightarrow> nat \<times> heap" where
  "ComputedState_new computeFn dependencies h =
     (let k = nextComputed h;
          c = \<lparr>c_value = computeFn (arrays h) (valueOf h), c_computeFn = computeFn,
               c_dependencies = dependencies, c_listeners = []\<rparr>;
          h1 = h\<lparr>computeds := (computeds h)(k \<mapsto> c), nextComputed := Suc k\<rparr>
      in (k, foldl (register_computed k) h1 dependencies))"

text \<open>\<open>map(fn)\<close> builds the closure \<open>() => fn(this._value)\<close>. The function \<open>fn\<close>
  is pure; given a reference it may read the array behind it.\<close>

definition State_map :: "nat \<Rightarrow> ((nat \<Rightarrow> val list option) \<Rightarrow> val \<Rightarrow> val) \<Rightarrow> heap \<Rightarrow> nat \<times> heap" where
  "State_map a fn h = ComputedState_new (\<lambda>ar vs. fn ar (vs a)) [a] h"

definition State_push :: "nat \<Rightarrow> val \<Rightarrow> heap \<Rightarrow> unit completion \<times> heap" where
  "State_push a item h =
     (case states h a of
        None \<Rightarrow> (Return (), h)
      | Some s \<Rightarrow>
          (case s_value s of
             Ref r \<Rightarrow>
               (case arrays h r of
                  Some xs \<Rightarrow> (Return (), State_notify a (h\<lparr>arrays := (arrays h)(r \<mapsto> xs @ [item])\<rparr>))
                | None \<Rightarrow> (Return (), h))
           | _ \<Rightarrow> (Return (), h)))"

definition State_filter :: "nat \<Rightarrow> (val \<Rightarrow> bool) \<Rightarrow> heap \<Rightarrow> val list completion \<times> heap" where
  "State_filter a predicate h =
     (case states h a of
        None \<Rightarrow> (Throw ''filter() can only be used on array states'', h)
      | Some s \<Rightarrow>
          (case s_value s of
             Ref r \<Rightarrow>
               (case arrays h r of
                  Some xs \<Rightarrow> (Return (filter predicate xs), h)
                | None \<Rightarrow> (Throw ''filter() can only be used on array states'', h))
           | _ \<Rightarrow> (Throw ''filter() can only be used on array states'', h)))"

definition ComputedState_subscribe :: "nat \<Rightarrow> listener \<Rightarrow> heap \<Rightarrow> heap" where
  "ComputedState_subscribe k l h =
     (case computeds h k of
        None \<Rightarrow> h
      | Some c \<Rightarrow> h\<lparr>computeds := (computeds h)(k \<mapsto> c\<lparr>c_listeners := set_add l (c_listeners c)\<rparr>)\<rparr>)"

definition ComputedState_unsubscribe :: "nat \<Rightarrow> listener \<Rightarrow> heap \<Rightarrow> heap" where
  "ComputedState_unsubscribe k l h =
     (case computeds h k of
        None \<Rightarrow> h
      | Some c \<Rightarrow> h\<lparr>computeds := (computeds h)(k \<mapsto> c\<lparr>c_listeners := set_delete l (c_listeners c)\<rparr>)\<rparr>)"

section \<open>The render tree\<close>

text \<open>
  The element-factory layer gives the core two primitives, creating a node and
  attaching a node. Nodes are numbered in order of creation; node \<open>0\<close> is
  \<open>document.body\<close>. The tree is kept as the parent of every node and the ordered
  children of every node. \<open>textContent\<close> holds what a node was created with.
\<close>

type_synonym node = nat

definition body :: node where
  "body = 0"

record document =
  parentNode :: "node \<Rightarrow> node option"
  childNodes :: "node \<Rightarrow> node list"
  textContent :: "node \<Rightarrow> string"
  nextNode :: node

definition document_init :: document where
  "document_init = \<lparr>parentNode = (\<lambda>n. None), childNodes = (\<lambda>n. []),
                      textContent = (\<lambda>n. []), nextNode = 1\<rparr>"

text \<open>\<open>document.createElement\<close>, \<open>createTextNode\<close> and \<open>createComment\<close>: a new
  node without a parent.\<close>

definition createNode :: "string \<Rightarrow> document \<Rightarrow> node \<times> document" where
  "createNode content d =
     (nextNode d, d\<lparr>textContent := (textContent d)(nextNode d := content),
                    nextNode := Suc (nextNode d)\<rparr>)"

text \<open>
  The DOM refuses to insert a node into its own subtree. The test walks from the
  target up through the parents; a chain of parents is no longer than the number of
  nodes created, which is the fuel.
\<close>

fun is_inclusive_ancestor :: "nat \<Rightarrow> document \<Rightarrow> node \<Rightarrow> node \<Rightarrow> bool" where
  "is_inclusive_ancestor 0 d anc n = (anc = n)"
| "is_inclusive_ancestor (Suc fuel) d anc n =
     (anc = n \<or> (case parentNode d n of
                    None \<Rightarrow> False
                  | Some p \<Rightarrow> is_inclusive_ancestor fuel d anc p))"

text \<open>\<open>node.remove()\<close> detaches a node from its parent, if it has one.\<close>

definition remove :: "node \<Rightarrow> document \<Rightarrow> document" where
  "remove n d =
     (case parentNode d n of
        None \<Rightarrow> d
      | Some p \<Rightarrow> d\<lparr>parentNode := (parentNode d)(n := None),
                     childNodes := (childNodes d)(p := removeAll n (childNodes d p))\<rparr>)"

text \<open>\<open>appendChild\<close> and \<open>insertBefore\<close> first detach the node from where it is.\<close>

definition appendChild :: "node \<Rightarrow> node \<Rightarrow> document \<Rightarrow> document completion" where
  "appendChild p n d =
     (if is_inclusive_ancestor (nextNode d) d n p then Throw ''HierarchyRequestError''
      else let d1 = remove n d
           in Return (d1\<lparr>parentNode := (parentNode d1)(n \<mapsto> p),
                          childNodes := (childNodes d1)(p := childNodes d1 p @ [n])\<rparr>))"

definition insertBefore :: "node \<Rightarrow> node \<Rightarrow> node \<Rightarrow> document \<Rightarrow> document completion" where
  "insertBefore p n ref d =
     (if is_inclusive_ancestor (nextNode d) d n p then Throw ''HierarchyRequestError''
      else if parentNode d ref \<noteq> Some p then Throw ''NotFoundError''
      else let d1 = remove n d
           in Return (d1\<lparr>parentNode := (parentNode d1)(n \<mapsto> p),
                          childNodes := (childNodes d1)
                            (p := takeWhile (\<lambda>x. x \<noteq> ref) (childNodes d1 p) @ n #
                                  dropWhile (\<lambda>x. x \<noteq> ref) (childNodes d1 p))\<rparr>))"

section \<open>simplest.ts: the context stack and div\<close>

text \<open>
  The module variable \<open>contextStack\<close> is a JS array whose last entry is the current
  insertion point: a list with the top at the end, initialised to \<open>[document.body]\<close>.
\<close>

definition contextStack_init :: "node list" where
  "contextStack_init = [body]"

text \<open>\<open>contextStack[contextStack.length - 1]\<close>: index \<open>-1\<close> of an empty array is
  \<open>undefined\<close>, here \<open>None\<close>.\<close>

definition getCurrentContext :: "node list \<Rightarrow> node option" where
  "getCurrentContext contextStack =
     (if length contextStack = 0 then None
      else Some (contextStack ! (length contextStack - 1)))"

definition pushContext :: "node \<Rightarrow> node list \<Rightarrow> node list" where
  "pushContext element contextStack = contextStack @ [element]"

definition popContext :: "node list \<Rightarrow> node list" where
  "popContext contextStack =
     (if length contextStack > 1 then butlast contextStack else contextStack)"

text \<open>An arbitrary sequence of calls of the two mutators, balanced or not.\<close>

datatype ctx_call = PushContext node | PopContext

fun ctx_step :: "node list \<Rightarrow> ctx_call \<Rightarrow> node list" where
  "ctx_step st (PushContext e) = pushContext e st"
| "ctx_step st PopContext = popContext st"

definition ctx_run :: "ctx_call list \<Rightarrow> node list \<Rightarrow> node list" where
  "ctx_run calls st = foldl ctx_step st calls"






section \<open>simplest-v2.js: SimplestEngine.div\<close>

text \<open>
  In simplest-v2.js a child may also be a function, which div calls while its own
  element is on the stack. What such a function does is a sequence of statements:
  composition calls (\<open>Div\<close>, and \<open>Leaf\<close> for the factories built on
  \<open>_createElement\<close> with a string content: h1, h2, h3, p), a \<open>throw\<close> (\<open>Raise\<close>), and
  \<open>try { ... } catch (e) { ... }\<close> around further statements (\<open>Try\<close>), with which a
  function can catch what a nested call raised and go on. A child that is neither
  function, string nor element is skipped by div: \<open>Other\<close>.
\<close>

datatype child = Txt string | Elem node | Fn "call list" | Other
  and call = Div "child list" | Leaf string | Raise string | Try "call list" "call list"

text \<open>While the document is loading (\<open>ready\<close> is false) \<open>_execute\<close> queues the
  call instead of running it.\<close>

record SimplestEngine =
  contextStack :: "node list"
  ready :: bool
  queue :: "call list"

definition engine_init :: SimplestEngine where
  "engine_init = \<lparr>contextStack = [], ready = True, queue = []\<rparr>"

text \<open>\<open>this.contextStack[this.contextStack.length - 1] || document.body\<close>\<close>

definition currentContext :: "SimplestEngine \<Rightarrow> node" where
  "currentContext e =
     (if length (contextStack e) = 0 then body
      else contextStack e ! (length (contextStack e) - 1))"

type_synonym v2_state = "SimplestEngine \<times> document"

definition v2_push :: "node \<Rightarrow> SimplestEngine \<Rightarrow> SimplestEngine" where
  "v2_push el e = e\<lparr>contextStack := contextStack e @ [el]\<rparr>"

text \<open>\<open>Array.prototype.pop\<close> on an empty array leaves it empty.\<close>

definition v2_pop :: "SimplestEngine \<Rightarrow> SimplestEngine" where
  "v2_pop e = e\<lparr>contextStack := butlast (contextStack e)\<rparr>"

fun run_call :: "call \<Rightarrow> v2_state \<Rightarrow> unit completion \<times> v2_state"
  and run_body :: "call list \<Rightarrow> v2_state \<Rightarrow> unit completion \<times> v2_state"
  and run_child :: "node \<Rightarrow> child \<Rightarrow> v2_state \<Rightarrow> unit completion \<times> v2_state"
  and run_children :: "node \<Rightarrow> child list \<Rightarrow> v2_state \<Rightarrow> unit completion \<times> v2_state"
where
  "run_call (Raise msg) s = (Throw msg, s)"
| "run_call (Try tbody handler) s =
     (case run_body tbody s of
        (Throw m, s') \<Rightarrow> run_body handler s'
      | (Return u, s') \<Rightarrow> (Return (), s'))"
| "run_call (Leaf content) (e, d) =
     (if \<not> ready e then (Return (), e\<lparr>queue := queue e @ [Leaf content]\<rparr>, d)
      else case createNode content d of (el, d1) \<Rightarrow>
        (case appendChild (currentContext e) el d1 of
           Throw m \<Rightarrow> (Throw m, e, d1)
         | Return d2 \<Rightarrow> (Return (), e, d2)))"
| "run_call (Div children) (e, d) =
     (if \<not> ready e then (Return (), e\<lparr>queue := queue e @ [Div children]\<rparr>, d)
      else case createNode [] d of (el, d1) \<Rightarrow>
        (case appendChild (currentContext e) el d1 of
           Throw m \<Rightarrow> (Throw m, e, d1)
         | Return d2 \<Rightarrow>
             (case run_children el children (v2_push el e, d2) of
                (Throw m, s') \<Rightarrow> (Throw m, s')
              | (Return u, (e', d')) \<Rightarrow> (Return (), v2_pop e', d'))))"
| "run_body [] s = (Return (), s)"
| "run_body (c # cs) s =
     (case run_call c s of
        (Throw m, s') \<Rightarrow> (Throw m, s')
      | (Return u, s') \<Rightarrow> run_body cs s')"
| "run_child el (Fn fbody) s = run_body fbody s"
| "run_child el (Txt content) (e, d) =
     (case createNode content d of (t, d1) \<Rightarrow>
        (case appendChild el t d1 of
           Throw m \<Rightarrow> (Throw m, e, d1)
         | Return d2 \<Rightarrow> (Return (), e, d2)))"
| "run_child el (Elem c) (e, d) =
     (case appendChild el c d of
        Throw m \<Rightarrow> (Throw m, e, d)
      | Return d1 \<Rightarrow> (Return (), e, d1))"
| "run_child el Other s = (Return (), s)"
| "run_children el [] s = (Return (), s)"
| "run_children el (c # cs) s =
     (case run_child el c s of
        (Throw m, s') \<Rightarrow> (Throw m, s')
      | (Return u, s') \<Rightarrow> run_children el cs s')"

text \<open>The handler of \<open>DOMContentLoaded\<close>: \<open>this.ready = true; this._flushQueue()\<close>,
  which runs the queued calls in order and then empties the queue.\<close>

definition flushQueue :: "v2_state \<Rightarrow> unit completion \<times> v2_state" where
  "flushQueue s =
     (case s of (e, d) \<Rightarrow>
        (case run_body (queue e) (e\<lparr>ready := True\<rparr>, d) of
           (Throw m, s') \<Rightarrow> (Throw m, s')
         | (Return u, (e', d')) \<Rightarrow> (Return (), e'\<lparr>queue := []\<rparr>, d')))"

section \<open>state.ts: ConditionalElement and IteratedElements\<close>

text \<open>
  The render callbacks (\<open>elementFn\<close>, \<open>renderFn\<close>) are application code. A callback
  is taken to build one new element on each call: either with
  \<open>document.createElement\<close> alone, or with an element factory, which also appends
  the new element to an insertion point that exists already (\<open>r_attach\<close>). The
  content it gives the element is \<open>r_content\<close>.
\<close>

record rendering =
  r_content :: string
  r_attach :: "node option"

definition build :: "rendering \<Rightarrow> document \<Rightarrow> node completion \<times> document" where
  "build r d =
     (case createNode (r_content r) d of (n, d1) \<Rightarrow>
        (case r_attach r of
           None \<Rightarrow> (Return n, d1)
         | Some ctx \<Rightarrow>
             (case appendChild ctx n d1 of
                Throw m \<Rightarrow> (Throw m, d1)
              | Return d2 \<Rightarrow> (Return n, d2))))"

text \<open>
  The condition is a closure over cells. Like a compute function it reads the arrays
  and the current values of the State objects, as they are when \<open>update()\<close> runs.
\<close>

type_synonym cond_fn = "(nat \<Rightarrow> val list option) \<Rightarrow> (nat \<Rightarrow> val) \<Rightarrow> bool"

record ConditionalElement =
  conditionFn :: cond_fn
  elementFn :: rendering
  ce_dependencies :: "nat list"
  currentElement :: "node option"
  placeholder :: node

definition ConditionalElement_update ::
  "heap \<Rightarrow> ConditionalElement \<times> document \<Rightarrow> unit completion \<times> ConditionalElement \<times> document" where
  "ConditionalElement_update h cd =
     (case cd of (ce, d) \<Rightarrow>
        let shouldShow = conditionFn ce (arrays h) (valueOf h)
        in if shouldShow \<and> currentElement ce = None then
             (case build (elementFn ce) d of
                (Throw m, d1) \<Rightarrow> (Throw m, ce, d1)
              | (Return n, d1) \<Rightarrow>
                  let ce1 = ce\<lparr>currentElement := Some n\<rparr>
                  in (case parentNode d1 (placeholder ce1) of
                        None \<Rightarrow> (Return (), ce1, d1)
                      | Some p \<Rightarrow>
                          (case insertBefore p n (placeholder ce1) d1 of
                             Throw m \<Rightarrow> (Throw m, ce1, d1)
                           | Return d2 \<Rightarrow> (Return (), ce1, d2))))
           else if \<not> shouldShow \<and> currentElement ce \<noteq> None then
             (case currentElement ce of
                Some n \<Rightarrow> (Return (), ce\<lparr>currentElement := None\<rparr>, remove n d)
              | None \<Rightarrow> (Return (), ce, d))
           else (Return (), ce, d))"

text \<open>
  The constructor creates the placeholder comment, appends it to \<open>document.body\<close>,
  renders once and then subscribes one new closure \<open>() => this.update()\<close> to every
  dependency; \<open>closures\<close> names these closures.
\<close>

fun subscribe_all :: "(nat \<times> listener) list \<Rightarrow> heap \<Rightarrow> heap" where
  "subscribe_all [] h = h"
| "subscribe_all ((dep, l) # rest) h = subscribe_all rest (State_subscribe dep l h)"

definition ConditionalElement_new ::
  "cond_fn \<Rightarrow> rendering \<Rightarrow> nat list \<Rightarrow> listener list \<Rightarrow> heap \<times> document
     \<Rightarrow> unit completion \<times> ConditionalElement \<times> heap \<times> document" where
  "ConditionalElement_new condFn elemFn deps closures w =
     (case w of (h, d) \<Rightarrow>
        (case createNode ''conditional'' d of (ph, d1) \<Rightarrow>
           let ce = \<lparr>conditionFn = condFn, elementFn = elemFn, ce_dependencies = deps,
                     currentElement = None, placeholder = ph\<rparr>
           in (case appendChild body ph d1 of
                 Throw m \<Rightarrow> (Throw m, ce, h, d1)
               | Return d2 \<Rightarrow>
                   (case ConditionalElement_update h (ce, d2) of
                      (Throw m, ce', d3) \<Rightarrow> (Throw m, ce', h, d3)
                    | (Return u, ce', d3) \<Rightarrow>
                        (Return (), ce', subscribe_all (zip deps closures) h, d3)))))"

definition State_when ::
  "nat \<Rightarrow> ((nat \<Rightarrow> val list option) \<Rightarrow> val \<Rightarrow> bool) \<Rightarrow> rendering \<Rightarrow> listener \<Rightarrow> heap \<times> document
     \<Rightarrow> unit completion \<times> ConditionalElement \<times> heap \<times> document" where
  "State_when a condition callback closure w =
     ConditionalElement_new (\<lambda>ar vs. condition ar (vs a)) callback [a] [closure] w"







text \<open>
  The source of a list is an array or a State holding one; both are references.
  \<open>currentItems.forEach\<close> is a TypeError when the value read is not an array.
\<close>

datatype items_source = Items nat | ItemsState nat

record IteratedElements =
  items :: items_source
  renderFn :: "val \<Rightarrow> nat \<Rightarrow> rendering"
  elements :: "node list"
  container :: node

definition currentItems :: "heap \<Rightarrow> items_source \<Rightarrow> val list completion" where
  "currentItems h src =
     (case (case src of ItemsState a \<Rightarrow> valueOf h a | Items r \<Rightarrow> Ref r) of
        Ref r \<Rightarrow> (case arrays h r of
                    Some xs \<Rightarrow> Return xs
                  | None \<Rightarrow> Throw ''TypeError: currentItems.forEach is not a function'')
      | _ \<Rightarrow> Throw ''TypeError: currentItems.forEach is not a function'')"

fun render_items ::
  "(val \<Rightarrow> nat \<Rightarrow> rendering) \<Rightarrow> node \<Rightarrow> val list \<Rightarrow> nat \<Rightarrow> node list \<times> document
     \<Rightarrow> unit completion \<times> node list \<times> document" where
  "render_items f c [] index (els, d) = (Return (), els, d)"
| "render_items f c (item # rest) index (els, d) =
     (case build (f item index) d of
        (Throw m, d1) \<Rightarrow> (Throw m, els, d1)
      | (Return element, d1) \<Rightarrow>
          (case appendChild c element d1 of
             Throw m \<Rightarrow> (Throw m, els, d1)
           | Return d2 \<Rightarrow> render_items f c rest (Suc index) (els @ [element], d2)))"

definition IteratedElements_render ::
  "heap \<Rightarrow> IteratedElements \<times> document \<Rightarrow> unit completion \<times> IteratedElements \<times> document" where
  "IteratedElements_render h s =
     (case s of (ie, d) \<Rightarrow>
        let d1 = foldl (\<lambda>d' el. remove el d') d (elements ie);
            ie1 = ie\<lparr>elements := []\<rparr>
        in (case currentItems h (items ie1) of
              Throw m \<Rightarrow> (Throw m, ie1, d1)
            | Return xs \<Rightarrow>
                (case render_items (renderFn ie1) (container ie1) xs 0 (elements ie1, d1) of
                   (r, els, d2) \<Rightarrow> (r, ie1\<lparr>elements := els\<rparr>, d2))))"

definition IteratedElements_new ::
  "items_source \<Rightarrow> (val \<Rightarrow> nat \<Rightarrow> rendering) \<Rightarrow> listener \<Rightarrow> heap \<times> document
     \<Rightarrow> unit completion \<times> IteratedElements \<times> heap \<times> document" where
  "IteratedElements_new src rf closure w =
     (case w of (h, d) \<Rightarrow>
        (case createNode [] d of (c, d1) \<Rightarrow>
           let ie = \<lparr>items = src, renderFn = rf, elements = [], container = c\<rparr>
           in (case appendChild body c d1 of
                 Throw m \<Rightarrow> (Throw m, ie, h, d1)
               | Return d2 \<Rightarrow>
                   (case IteratedElements_render h (ie, d2) of
                      (Throw m, ie', d3) \<Rightarrow> (Throw m, ie', h, d3)
                    | (Return u, ie', d3) \<Rightarrow>
                        (Return (), ie',
                         (case src of ItemsState a \<Rightarrow> State_subscribe a closure h | Items r \<Rightarrow> h),
                         d3)))))"

definition each :: 
  "items_source \<Rightarrow> (val \<Rightarrow> nat \<Rightarrow> rendering) \<Rightarrow> listener \<Rightarrow> heap \<times> document
     \<Rightarrow> unit completion \<times> IteratedElements \<times> heap \<times> document" where
  "each its rf closure w = IteratedElements_new its rf closure w"

section \<open>Notions used to state the properties\<close>

text \<open>
  The definitions of this section are not part of the program. They name what a
  notify pass appends to the trace, select events of one kind, state the invariants
  of heaps, documents and bindings, give the heaps and pages that the operations of
  the program build, and build the small heaps on which the theorems are
  instantiated.
\<close>

text \<open>
  What \<open>recompute()\<close> of a ComputedState computes on a heap, the events it appends to
  the trace, and the ComputedStates after a notify pass has recomputed a set of them.
\<close>

definition recomputed_value :: "heap \<Rightarrow> ComputedState \<Rightarrow> val" where
  "recomputed_value h c = c_computeFn c (arrays h) (valueOf h)"

definition recompute_events :: "heap \<Rightarrow> nat \<Rightarrow> event list" where
  "recompute_events h k =
     (case computeds h k of
        None \<Rightarrow> []
      | Some c \<Rightarrow>
          Recompute k #
          (if recomputed_value h c \<noteq> c_value c
           then map (\<lambda>l. Invoke (OfComputed k) l (recomputed_value h c)) (c_listeners c)
           else []))"

definition recompute_all :: "heap \<Rightarrow> nat list \<Rightarrow> nat \<Rightarrow> ComputedState option" where
  "recompute_all h ks j =
     (if j \<in> set ks
      then map_option (\<lambda>c. c\<lparr>c_value := recomputed_value h c\<rparr>) (computeds h j)
      else computeds h j)"

text \<open>
  The events of one notify pass of a State.
\<close>

definition notify_events :: "heap \<Rightarrow> nat \<Rightarrow> State \<Rightarrow> event list" where
  "notify_events h a s =
     map (\<lambda>l. Invoke (OfState a) l (s_value s)) (s_listeners s)
     @ concat (map (recompute_events h) (s_computedStates s))"

text \<open>
  Selectors on events: a \<open>recompute()\<close> call, an invocation of a listener of some
  State, an invocation of a listener of one ComputedState.
\<close>

fun is_Recompute :: "event \<Rightarrow> bool" where
  "is_Recompute (Recompute k) = True"
| "is_Recompute (Invoke src l v) = False"

fun from_State :: "event \<Rightarrow> bool" where
  "from_State (Invoke (OfState a) l v) = True"
| "from_State e = False"

text \<open>
  The ComputedStates registered with a State, and a sequence of assignments.
\<close>

definition registered :: "heap \<Rightarrow> nat \<Rightarrow> nat list" where
  "registered h a = (case states h a of Some s \<Rightarrow> s_computedStates s | None \<Rightarrow> [])"

fun of_computed :: "nat \<Rightarrow> event \<Rightarrow> bool" where
  "of_computed k (Invoke (OfComputed j) l v) = (j = k)"
| "of_computed k e = False"

definition run_sets :: "(nat \<times> val) list \<Rightarrow> heap \<Rightarrow> heap" where
  "run_sets ms h = foldl (\<lambda>h' (a, v). State_set_value a v h') h ms"

text \<open>
  State and ComputedState have the same subscribe contract; these definitions let a
  statement speak of either.
\<close>

definition listenersOf :: "heap \<Rightarrow> source \<Rightarrow> listener list" where
  "listenersOf h src =
     (case src of
        OfState a \<Rightarrow> (case states h a of Some s \<Rightarrow> s_listeners s | None \<Rightarrow> [])
      | OfComputed k \<Rightarrow> (case computeds h k of Some c \<Rightarrow> c_listeners c | None \<Rightarrow> []))"

fun subscribe_to :: "source \<Rightarrow> listener \<Rightarrow> heap \<Rightarrow> heap" where
  "subscribe_to (OfState a) l h = State_subscribe a l h"
| "subscribe_to (OfComputed k) l h = ComputedState_subscribe k l h"

fun unsubscribe_from :: "source \<Rightarrow> listener \<Rightarrow> heap \<Rightarrow> heap" where
  "unsubscribe_from (OfState a) l h = State_unsubscribe a l h"
| "unsubscribe_from (OfComputed k) l h = ComputedState_unsubscribe k l h"

definition exists_in :: "heap \<Rightarrow> source \<Rightarrow> bool" where
  "exists_in h src =
     (case src of OfState a \<Rightarrow> states h a \<noteq> None | OfComputed k \<Rightarrow> computeds h k \<noteq> None)"

text \<open>
  Small heaps on which the theorems are instantiated: a cell holding 5 with listener
  3 and the computed cell \<open>map(x => 2 * x)\<close>, which has listener 7; a cell holding an
  array; and that cell with the computed cell \<open>map(xs => xs.length)\<close>, which has
  listener 7.
\<close>

definition double :: "(nat \<Rightarrow> val list option) \<Rightarrow> val \<Rightarrow> val" where
  "double ar v = (case v of Num n \<Rightarrow> Num (2 * n) | _ \<Rightarrow> Undefined)"

definition demo :: heap where
  "demo = ComputedState_subscribe 0 7
            (snd (State_map 0 double (State_subscribe 0 3 (snd (State_new (Num 5) heap_init)))))"

definition demo_array :: heap where
  "demo_array = State_subscribe 0 3
                  (snd (State_new (Ref 0) (heap_init\<lparr>arrays := [0 \<mapsto> [Num 1, Num 2]]\<rparr>)))"

definition len :: "(nat \<Rightarrow> val list option) \<Rightarrow> val \<Rightarrow> val" where
  "len ar v = (case v of
                 Ref r \<Rightarrow> (case ar r of Some xs \<Rightarrow> Num (int (length xs)) | None \<Rightarrow> Undefined)
               | _ \<Rightarrow> Undefined)"

definition demo_length :: heap where
  "demo_length = ComputedState_subscribe 0 7 (snd (State_map 0 len demo_array))"

text \<open>
  The listener sets and computed sets of a heap are duplicate-free, as JS Sets are,
  and every registered ComputedState exists. \<open>reachable\<close> are the heaps that the
  operations of state.ts build from an empty heap with any arrays.
\<close>

definition heap_wf :: "heap \<Rightarrow> bool" where
  "heap_wf h \<longleftrightarrow>
     (\<forall>a s. states h a = Some s \<longrightarrow>
        distinct (s_listeners s) \<and> distinct (s_computedStates s)
      \<and> set (s_computedStates s) \<subseteq> dom (computeds h))
   \<and> (\<forall>k c. computeds h k = Some c \<longrightarrow> distinct (c_listeners c))"

inductive reachable :: "heap \<Rightarrow> bool" where
  r_init: "reachable (heap_init\<lparr>arrays := ar\<rparr>)"
| r_new: "reachable h \<Longrightarrow> reachable (snd (State_new v h))"
| r_set: "reachable h \<Longrightarrow> reachable (State_set_value a v h)"
| r_push: "reachable h \<Longrightarrow> reachable (snd (State_push a v h))"
| r_sub: "reachable h \<Longrightarrow> reachable (State_subscribe a l h)"
| r_unsub: "reachable h \<Longrightarrow> reachable (State_unsubscribe a l h)"
| r_computed: "reachable h \<Longrightarrow> reachable (snd (ComputedState_new f deps h))"
| r_csub: "reachable h \<Longrightarrow> reachable (ComputedState_subscribe k l h)"
| r_cunsub: "reachable h \<Longrightarrow> reachable (ComputedState_unsubscribe k l h)"

text \<open>
  The heaps that later operations of state.ts make of a heap. \<open>follows k f a\<close>: the
  ComputedState \<open>k\<close> exists with the compute function \<open>f\<close> and is registered with the
  State \<open>a\<close>. \<open>same_shape\<close>: two heaps have the same objects, compute functions and
  registrations. \<open>alloc_ok\<close>: every State is at an address below the allocation
  counter.
\<close>

inductive evolves :: "heap \<Rightarrow> heap \<Rightarrow> bool" where
  e_refl: "evolves h h"
| e_new: "evolves h h' \<Longrightarrow> evolves h (snd (State_new v h'))"
| e_set: "evolves h h' \<Longrightarrow> evolves h (State_set_value a v h')"
| e_push: "evolves h h' \<Longrightarrow> evolves h (snd (State_push a v h'))"
| e_sub: "evolves h h' \<Longrightarrow> evolves h (State_subscribe a l h')"
| e_unsub: "evolves h h' \<Longrightarrow> evolves h (State_unsubscribe a l h')"
| e_computed: "evolves h h' \<Longrightarrow> evolves h (snd (ComputedState_new f deps h'))"
| e_csub: "evolves h h' \<Longrightarrow> evolves h (ComputedState_subscribe k l h')"
| e_cunsub: "evolves h h' \<Longrightarrow> evolves h (ComputedState_unsubscribe k l h')"

definition follows :: "nat \<Rightarrow> compute \<Rightarrow> nat \<Rightarrow> heap \<Rightarrow> bool" where
  "follows k f a h \<longleftrightarrow>
     (\<exists>c. computeds h k = Some c \<and> c_computeFn c = f)
   \<and> k < nextComputed h \<and> k \<in> set (registered h a)
   \<and> states h a \<noteq> None \<and> a < nextState h"

definition same_shape :: "heap \<Rightarrow> heap \<Rightarrow> bool" where
  "same_shape h h' \<longleftrightarrow>
     nextComputed h' = nextComputed h \<and> nextState h' = nextState h
   \<and> (\<forall>j. map_option c_computeFn (computeds h' j) = map_option c_computeFn (computeds h j))
   \<and> registered h' = registered h
   \<and> (\<forall>b. (states h' b = None) = (states h b = None))"

definition alloc_ok :: "heap \<Rightarrow> bool" where
  "alloc_ok h \<longleftrightarrow> (\<forall>a. states h a \<noteq> None \<longrightarrow> a < nextState h)"



text \<open>
  Every node that occurs in the tree has been created. \<open>attach_ok\<close>: the insertion
  point a render callback appends to has been created. \<open>placed\<close> is the document after
  a new node with the given content has become a child of \<open>p\<close>, whose children are
  then \<open>kids\<close>.
\<close>

definition doc_wf :: "document \<Rightarrow> bool" where
  "doc_wf d \<longleftrightarrow>
     (\<forall>n p. parentNode d n = Some p \<longrightarrow> n < nextNode d \<and> p < nextNode d)
   \<and> (\<forall>p n. n \<in> set (childNodes d p) \<longrightarrow> n < nextNode d \<and> p < nextNode d)"

definition attach_ok :: "rendering \<Rightarrow> document \<Rightarrow> bool" where
  "attach_ok r d = (case r_attach r of None \<Rightarrow> True | Some ctx \<Rightarrow> ctx < nextNode d)"

definition placed :: "document \<Rightarrow> string \<Rightarrow> node \<Rightarrow> node list \<Rightarrow> document" where
  "placed d content p kids =
     d\<lparr>parentNode := (parentNode d)(nextNode d \<mapsto> p),
       childNodes := (childNodes d)(p := kids),
       textContent := (textContent d)(nextNode d := content),
       nextNode := Suc (nextNode d)\<rparr>"

text \<open>
  The truth value of a condition on a heap.
\<close>

definition holds :: "cond_fn \<Rightarrow> heap \<Rightarrow> bool" where
  "holds f h = f (arrays h) (valueOf h)"












text \<open>
  The invariant of an IteratedElements: the container exists and its children are
  exactly the tracked nodes.
\<close>

definition iter_inv :: "IteratedElements \<Rightarrow> document \<Rightarrow> bool" where
  "iter_inv ie d \<longleftrightarrow>
     doc_wf d \<and> container ie < nextNode d
   \<and> childNodes d (container ie) = elements ie
   \<and> distinct (elements ie)
   \<and> (\<forall>e \<in> set (elements ie). parentNode d e = Some (container ie))
   \<and> (\<forall>x i. attach_ok (renderFn ie x i) d)"

text \<open>
  A cell holding an array, and a render callback that makes a text node of an item.
\<close>

definition list_heap :: "val list \<Rightarrow> heap" where
  "list_heap xs = snd (State_new (Ref 0) (heap_init\<lparr>arrays := [0 \<mapsto> xs]\<rparr>))"

definition text_r :: "val \<Rightarrow> nat \<Rightarrow> rendering" where
  "text_r item index =
     \<lparr>r_content = (case item of Str s \<Rightarrow> s | _ \<Rightarrow> []), r_attach = None\<rparr>"

section \<open>Properties of the context stack\<close>

lemma ctx_step_keeps_bottom:
  assumes "st \<noteq> []" and "hd st = b"
  shows "ctx_step st c \<noteq> [] \<and> hd (ctx_step st c) = b"
proof (cases c)
  case (PushContext e)
  with assms show ?thesis by (simp add: pushContext_def)
next
  case PopContext
  show ?thesis
  proof (cases "length st > 1")
    case True
    then obtain x y zs where st: "st = x # y # zs"
      by (cases st; cases "tl st") auto
    with assms PopContext show ?thesis by (simp add: popContext_def)
  next
    case False
    with assms PopContext show ?thesis by (simp add: popContext_def)
  qed
qed

lemma ctx_run_keeps_bottom:
  "st \<noteq> [] \<Longrightarrow> hd st = b \<Longrightarrow> ctx_run calls st \<noteq> [] \<and> hd (ctx_run calls st) = b"
  unfolding ctx_run_def
proof (induction calls arbitrary: st)
  case Nil
  then show ?case by simp
next
  case (Cons c calls)
  from ctx_step_keeps_bottom[OF Cons.prems] have
    "ctx_step st c \<noteq> []" "hd (ctx_step st c) = b" by simp_all
  from Cons.IH[OF this] show ?case by simp
qed

text \<open>
  C10. Starting from the initial stack \<open>[document.body]\<close>, after any sequence of
  pushContext and popContext calls (however many extra pops it contains) the stack is
  non-empty, its bottom entry is \<open>document.body\<close>, and getCurrentContext returns a
  defined element, namely the last entry.
\<close>

theorem C10_context_stack_never_underflows:
  "ctx_run calls contextStack_init \<noteq> []
   \<and> hd (ctx_run calls contextStack_init) = body
   \<and> getCurrentContext (ctx_run calls contextStack_init)
       = Some (last (ctx_run calls contextStack_init))"
proof -
  let ?st = "ctx_run calls contextStack_init"
  have ne: "?st \<noteq> []" and bot: "hd ?st = body"
    using ctx_run_keeps_bottom[of contextStack_init body calls]
    by (simp_all add: contextStack_init_def)
  from ne have "getCurrentContext ?st = Some (last ?st)"
    by (simp add: getCurrentContext_def last_conv_nth)
  with ne bot show ?thesis by simp
qed

text \<open>
  An instance of C10 with more pops than pushes.
\<close>

theorem C10_context_stack_witness:
  "ctx_run [PopContext, PopContext, PushContext 4, PopContext, PopContext] contextStack_init
     = [body]
   \<and> getCurrentContext
        (ctx_run [PopContext, PopContext, PushContext 4, PopContext, PopContext]
           contextStack_init) = Some body"
  using C10_context_stack_never_underflows
          [of "[PopContext, PopContext, PushContext 4, PopContext, PopContext]"]
  by (simp add: ctx_run_def contextStack_init_def popContext_def pushContext_def
        getCurrentContext_def)

section \<open>Properties of State and ComputedState\<close>

lemma demo_states:
  "states demo 0 = Some \<lparr>s_value = Num 5, s_listeners = [3], s_computedStates = [0]\<rparr>"
  by (simp add: demo_def State_new_def heap_init_def State_subscribe_def State_map_def
        ComputedState_new_def register_computed_def ComputedState_subscribe_def set_add_def
        Let_def)

lemma demo_computeds:
  "computeds demo 0 = Some \<lparr>c_value = Num 10, c_computeFn = (\<lambda>ar vs. double ar (vs 0)),
                             c_dependencies = [0], c_listeners = [7]\<rparr>"
  by (simp add: demo_def State_new_def heap_init_def State_subscribe_def State_map_def
        ComputedState_new_def register_computed_def ComputedState_subscribe_def set_add_def
        Let_def valueOf_def double_def)

lemma demo_trace: "trace demo = []"
  by (simp add: demo_def State_new_def heap_init_def State_subscribe_def State_map_def
        ComputedState_new_def register_computed_def ComputedState_subscribe_def set_add_def
        Let_def)

lemma demo_arrays: "arrays demo = Map.empty"
  by (simp add: demo_def State_new_def heap_init_def State_subscribe_def State_map_def
        ComputedState_new_def register_computed_def ComputedState_subscribe_def set_add_def
        Let_def)

lemma demo_array_states:
  "states demo_array 0 = Some \<lparr>s_value = Ref 0, s_listeners = [3], s_computedStates = []\<rparr>"
  by (simp add: demo_array_def State_new_def heap_init_def State_subscribe_def set_add_def)

lemma demo_array_arrays: "arrays demo_array 0 = Some [Num 1, Num 2]"
  by (simp add: demo_array_def State_new_def heap_init_def State_subscribe_def)

lemma demo_array_trace: "trace demo_array = []"
  by (simp add: demo_array_def State_new_def heap_init_def State_subscribe_def)

lemma demo_length_states:
  "states demo_length 0 = Some \<lparr>s_value = Ref 0, s_listeners = [3], s_computedStates = [0]\<rparr>"
  by (simp add: demo_length_def demo_array_def State_new_def heap_init_def State_subscribe_def
        State_map_def ComputedState_new_def register_computed_def ComputedState_subscribe_def
        set_add_def Let_def)

lemma demo_length_computeds:
  "computeds demo_length 0 = Some \<lparr>c_value = Num 2, c_computeFn = (\<lambda>ar vs. len ar (vs 0)),
                             c_dependencies = [0], c_listeners = [7]\<rparr>"
  by (simp add: demo_length_def demo_array_def State_new_def heap_init_def State_subscribe_def
        State_map_def ComputedState_new_def register_computed_def ComputedState_subscribe_def
        set_add_def Let_def valueOf_def len_def)

lemma demo_length_arrays: "arrays demo_length 0 = Some [Num 1, Num 2]"
  by (simp add: demo_length_def demo_array_def State_new_def heap_init_def State_subscribe_def
        State_map_def ComputedState_new_def register_computed_def ComputedState_subscribe_def
        Let_def)

lemma demo_length_trace: "trace demo_length = []"
  by (simp add: demo_length_def demo_array_def State_new_def heap_init_def State_subscribe_def
        State_map_def ComputedState_new_def register_computed_def ComputedState_subscribe_def
        Let_def)

lemma this_value_trace [simp]: "this_value src (h\<lparr>trace := t\<rparr>) = this_value src h"
  by (cases src) (simp_all add: valueOf_def cvalueOf_def)

lemma valueOf_trace [simp]: "valueOf (h\<lparr>trace := t\<rparr>) = valueOf h"
  by (rule ext) (simp add: valueOf_def)

lemma foldl_call_listener:
  "foldl (call_listener src) h ls
     = h\<lparr>trace := trace h @ map (\<lambda>l. Invoke src l (this_value src h)) ls\<rparr>"
  by (induction ls rule: rev_induct) (simp_all add: call_listener_def)

lemma recompute_char:
  assumes "computeds h k = Some c"
  shows "ComputedState_recompute k h
     = h\<lparr>computeds := (computeds h)(k \<mapsto> c\<lparr>c_value := recomputed_value h c\<rparr>),
         trace := trace h @ recompute_events h k\<rparr>"
proof (cases "recomputed_value h c = c_value c")
  case True
  then have "(computeds h)(k \<mapsto> c\<lparr>c_value := recomputed_value h c\<rparr>) = computeds h"
    using assms by (simp add: fun_upd_idem)
  with True assms show ?thesis
    by (simp add: ComputedState_recompute_def recompute_events_def recomputed_value_def
          Let_def)
next
  case False
  with assms show ?thesis
    by (simp add: ComputedState_recompute_def recompute_events_def recomputed_value_def
          Let_def foldl_call_listener cvalueOf_def)
qed

lemma valueOf_computeds [simp]: "valueOf (h\<lparr>computeds := m\<rparr>) = valueOf h"
  by (rule ext) (simp add: valueOf_def)

lemma recomputed_value_frame [simp]:
  "recomputed_value (h\<lparr>computeds := m, trace := t\<rparr>) c = recomputed_value h c"
  by (simp add: recomputed_value_def)

lemma recompute_events_frame:
  "m k = computeds h k \<Longrightarrow>
   recompute_events (h\<lparr>computeds := m, trace := t\<rparr>) k = recompute_events h k"
  by (simp add: recompute_events_def split: option.splits)

lemma foldl_recompute:
  assumes "distinct ks" and "set ks \<subseteq> dom (computeds h)"
  shows "foldl (\<lambda>h' k. ComputedState_recompute k h') h ks
     = h\<lparr>computeds := recompute_all h ks,
         trace := trace h @ concat (map (recompute_events h) ks)\<rparr>"
  using assms
proof (induction ks rule: rev_induct)
  case Nil
  have "recompute_all h [] = computeds h"
    by (rule ext) (simp add: recompute_all_def)
  then show ?case by simp
next
  case (snoc k ks)
  let ?H = "h\<lparr>computeds := recompute_all h ks,
              trace := trace h @ concat (map (recompute_events h) ks)\<rparr>"
  from snoc.prems have d: "distinct ks" and knot: "k \<notin> set ks"
    and sub: "set ks \<subseteq> dom (computeds h)" by simp_all
  from snoc.prems obtain c where c: "computeds h k = Some c" by auto
  have same: "recompute_all h ks k = computeds h k"
    using knot by (simp add: recompute_all_def)
  then have Hk: "computeds ?H k = Some c" using c by simp
  have ev: "recompute_events ?H k = recompute_events h k"
    using same by (rule recompute_events_frame)
  have upd: "(recompute_all h ks)(k \<mapsto> c\<lparr>c_value := recomputed_value h c\<rparr>)
               = recompute_all h (ks @ [k])"
    by (rule ext) (simp add: recompute_all_def c)
  have "foldl (\<lambda>h' k. ComputedState_recompute k h') h (ks @ [k])
          = ComputedState_recompute k ?H"
    using snoc.IH[OF d sub] by simp
  also have "\<dots> = ?H\<lparr>computeds := (computeds ?H)(k \<mapsto> c\<lparr>c_value := recomputed_value ?H c\<rparr>),
                        trace := trace ?H @ recompute_events ?H k\<rparr>"
    by (rule recompute_char[OF Hk])
  also have "\<dots> = h\<lparr>computeds := recompute_all h (ks @ [k]),
                      trace := trace h @ concat (map (recompute_events h) (ks @ [k]))\<rparr>"
    by (simp add: ev upd del: fun_upd_apply)
  finally show ?case .
qed

lemma this_value_state_frame [simp]:
  "this_value (OfState a) (h\<lparr>trace := t\<rparr>) = valueOf h a"
  by (simp add: valueOf_def)

lemma notify_char:
  assumes "states h a = Some s" and "distinct (s_computedStates s)"
    and "set (s_computedStates s) \<subseteq> dom (computeds h)"
  shows "State_notify a h
     = h\<lparr>computeds := recompute_all h (s_computedStates s),
         trace := trace h @ notify_events h a s\<rparr>"
proof -
  let ?h1 = "h\<lparr>trace := trace h @ map (\<lambda>l. Invoke (OfState a) l (s_value s)) (s_listeners s)\<rparr>"
  have h1: "foldl (call_listener (OfState a)) h (s_listeners s) = ?h1"
    using assms(1) by (simp add: foldl_call_listener valueOf_def)
  have ra: "recompute_all ?h1 (s_computedStates s) = recompute_all h (s_computedStates s)"
    by (rule ext) (simp add: recompute_all_def recomputed_value_def)
  have re: "map (recompute_events ?h1) (s_computedStates s)
              = map (recompute_events h) (s_computedStates s)"
    by (simp add: recompute_events_def recomputed_value_def split: option.splits)
  have "State_notify a h
          = foldl (\<lambda>h' k. ComputedState_recompute k h') ?h1 (s_computedStates s)"
    using assms(1) h1 by (simp add: State_notify_def)
  also have "\<dots> = ?h1\<lparr>computeds := recompute_all ?h1 (s_computedStates s),
        trace := trace ?h1 @ concat (map (recompute_events ?h1) (s_computedStates s))\<rparr>"
    using assms(2,3) by (intro foldl_recompute) simp_all
  also have "\<dots> = h\<lparr>computeds := recompute_all h (s_computedStates s),
         trace := trace h @ notify_events h a s\<rparr>"
    by (simp add: ra re notify_events_def)
  finally show ?thesis .
qed

lemma filter_Recompute_events:
  "computeds h k = Some c \<Longrightarrow> filter is_Recompute (recompute_events h k) = [Recompute k]"
  by (simp add: recompute_events_def)

lemma from_State_recompute_events:
  "e \<in> set (recompute_events h k) \<Longrightarrow> \<not> from_State e"
  by (auto simp: recompute_events_def split: option.splits if_splits)

lemma filter_Recompute_concat:
  "set ks \<subseteq> dom (computeds h) \<Longrightarrow>
   filter is_Recompute (concat (map (recompute_events h) ks)) = map Recompute ks"
proof (induction ks)
  case Nil
  show ?case by simp
next
  case (Cons k ks)
  then obtain c where "computeds h k = Some c" by auto
  with Cons show ?case by (simp add: filter_Recompute_events)
qed

lemma count_list_zero: "x \<notin> set xs \<Longrightarrow> count_list xs x = 0"
  by (induction xs) auto

lemma count_list_map_inj:
  "distinct xs \<Longrightarrow> inj f \<Longrightarrow> x \<in> set xs \<Longrightarrow> count_list (map f xs) (f x) = 1"
proof (induction xs)
  case Nil
  then show ?case by simp
next
  case (Cons y ys)
  show ?case
  proof (cases "x = y")
    case True
    with Cons.prems have "f x \<notin> set (map f ys)" by (auto simp: inj_def)
    then have "count_list (map f ys) (f x) = 0" by (rule count_list_zero)
    with True show ?thesis by simp
  next
    case False
    with Cons have "count_list (map f ys) (f x) = 1" by simp
    moreover from False Cons.prems have "f y \<noteq> f x" by (auto simp: inj_def)
    ultimately show ?thesis by simp
  qed
qed

text \<open>
  C1. Assigning to a State a value strictly different from the stored one stores it
  and runs one notify pass: the trace grows by one invocation of every subscribed
  listener, each with the new value and each exactly once, followed by events among
  which no State listener occurs any more and whose \<open>recompute()\<close> calls are those of
  the registered ComputedStates, once each and in order. Assigning the stored value
  leaves the heap, and so the trace, unchanged. The listener and computed sets are
  duplicate-free, as JS Sets are, and the registered ComputedStates exist.
\<close>

theorem C1_set_value_notifies:
  assumes "states h a = Some s"
    and "distinct (s_listeners s)"
    and "distinct (s_computedStates s)"
    and "set (s_computedStates s) \<subseteq> dom (computeds h)"
  shows "(newValue \<noteq> s_value s \<longrightarrow>
           (\<exists>rest.
              valueOf (State_set_value a newValue h) a = newValue
            \<and> trace (State_set_value a newValue h)
                = trace h @ map (\<lambda>l. Invoke (OfState a) l newValue) (s_listeners s) @ rest
            \<and> (\<forall>l \<in> set (s_listeners s).
                  count_list (map (\<lambda>l. Invoke (OfState a) l newValue) (s_listeners s) @ rest)
                    (Invoke (OfState a) l newValue) = 1)
            \<and> (\<forall>e \<in> set rest. \<not> from_State e)
            \<and> filter is_Recompute rest = map Recompute (s_computedStates s)))
       \<and> State_set_value a (s_value s) h = h"
proof (intro conjI impI)
  show "State_set_value a (s_value s) h = h"
    using assms(1) by (simp add: State_set_value_def)
next
  assume ne: "newValue \<noteq> s_value s"
  let ?s = "s\<lparr>s_value := newValue\<rparr>"
  let ?h = "h\<lparr>states := (states h)(a \<mapsto> ?s)\<rparr>"
  let ?inv = "map (\<lambda>l. Invoke (OfState a) l newValue) (s_listeners s)"
  let ?rest = "concat (map (recompute_events ?h) (s_computedStates s))"
  have st: "states ?h a = Some ?s" by simp
  have sub: "set (s_computedStates ?s) \<subseteq> dom (computeds ?h)"
    using assms(4) by simp
  have "State_set_value a newValue h = State_notify a ?h"
    using assms(1) ne by (simp add: State_set_value_def)
  also have "\<dots> = ?h\<lparr>computeds := recompute_all ?h (s_computedStates ?s),
                      trace := trace ?h @ notify_events ?h a ?s\<rparr>"
    using st _ sub by (rule notify_char) (simp add: assms(3))
  finally have eq: "State_set_value a newValue h
      = ?h\<lparr>computeds := recompute_all ?h (s_computedStates s),
            trace := trace h @ ?inv @ ?rest\<rparr>"
    by (simp add: notify_events_def)
  have v: "valueOf (State_set_value a newValue h) a = newValue"
    by (simp add: eq valueOf_def)
  have nfs: "\<forall>e \<in> set ?rest. \<not> from_State e"
    by (auto dest: from_State_recompute_events)
  have cnt: "\<forall>l \<in> set (s_listeners s).
               count_list (?inv @ ?rest) (Invoke (OfState a) l newValue) = 1"
  proof
    fix l assume l: "l \<in> set (s_listeners s)"
    have "Invoke (OfState a) l newValue \<notin> set ?rest"
      using nfs by force
    then have "count_list ?rest (Invoke (OfState a) l newValue) = 0"
      by (rule count_list_zero)
    moreover have "count_list ?inv (Invoke (OfState a) l newValue) = 1"
      using assms(2) _ l by (rule count_list_map_inj) (simp add: inj_def)
    ultimately show "count_list (?inv @ ?rest) (Invoke (OfState a) l newValue) = 1"
      by simp
  qed
  have fr: "filter is_Recompute ?rest = map Recompute (s_computedStates s)"
    using sub by (simp add: filter_Recompute_concat)
  show "\<exists>rest.
              valueOf (State_set_value a newValue h) a = newValue
            \<and> trace (State_set_value a newValue h)
                = trace h @ ?inv @ rest
            \<and> (\<forall>l \<in> set (s_listeners s).
                  count_list (?inv @ rest) (Invoke (OfState a) l newValue) = 1)
            \<and> (\<forall>e \<in> set rest. \<not> from_State e)
            \<and> filter is_Recompute rest = map Recompute (s_computedStates s)"
    using v eq cnt nfs fr by (intro exI[of _ ?rest]) simp
qed

text \<open>
  An instance of C1: a cell holding 5 with one listener and one computed cell.
\<close>

theorem C1_witness:
  "states demo 0 = Some \<lparr>s_value = Num 5, s_listeners = [3], s_computedStates = [0]\<rparr>
   \<and> (\<exists>rest. trace (State_set_value 0 (Num 7) demo) = Invoke (OfState 0) 3 (Num 7) # rest
             \<and> filter is_Recompute rest = [Recompute 0])
   \<and> State_set_value 0 (Num 5) demo = demo"
  using C1_set_value_notifies[OF demo_states, of "Num 7"] demo_states demo_computeds demo_trace
  by auto

lemma set_value_char:
  assumes "states h a = Some s" and "newValue \<noteq> s_value s"
    and "distinct (s_computedStates s)"
    and "set (s_computedStates s) \<subseteq> dom (computeds h)"
  shows "State_set_value a newValue h
     = h\<lparr>states := (states h)(a \<mapsto> s\<lparr>s_value := newValue\<rparr>),
         computeds := recompute_all (h\<lparr>states := (states h)(a \<mapsto> s\<lparr>s_value := newValue\<rparr>)\<rparr>)
                        (s_computedStates s),
         trace := trace h @ map (\<lambda>l. Invoke (OfState a) l newValue) (s_listeners s)
                  @ concat (map (recompute_events
                       (h\<lparr>states := (states h)(a \<mapsto> s\<lparr>s_value := newValue\<rparr>)\<rparr>))
                       (s_computedStates s))\<rparr>"
proof -
  let ?s = "s\<lparr>s_value := newValue\<rparr>"
  let ?h = "h\<lparr>states := (states h)(a \<mapsto> ?s)\<rparr>"
  have st: "states ?h a = Some ?s" by simp
  have sub: "set (s_computedStates ?s) \<subseteq> dom (computeds ?h)"
    using assms(4) by simp
  have "State_set_value a newValue h = State_notify a ?h"
    using assms(1,2) by (simp add: State_set_value_def)
  also have "\<dots> = ?h\<lparr>computeds := recompute_all ?h (s_computedStates ?s),
                      trace := trace ?h @ notify_events ?h a ?s\<rparr>"
    using st _ sub by (rule notify_char) (simp add: assms(3))
  finally show ?thesis
    by (simp add: notify_events_def)
qed

lemma of_computed_other:
  "j \<noteq> k \<Longrightarrow> filter (of_computed k) (recompute_events h j) = []"
  by (auto simp: recompute_events_def filter_empty_conv split: option.splits)

lemma of_computed_own:
  "computeds h k = Some c \<Longrightarrow>
   filter (of_computed k) (recompute_events h k)
     = (if recomputed_value h c \<noteq> c_value c
        then map (\<lambda>l. Invoke (OfComputed k) l (recomputed_value h c)) (c_listeners c)
        else [])"
  by (simp add: recompute_events_def filter_map comp_def)

lemma of_computed_concat:
  "distinct ks \<Longrightarrow> k \<in> set ks \<Longrightarrow>
   filter (of_computed k) (concat (map (recompute_events h) ks))
     = filter (of_computed k) (recompute_events h k)"
proof (induction ks)
  case Nil
  then show ?case by simp
next
  case (Cons j ks)
  show ?case
  proof (cases "j = k")
    case True
    with Cons.prems have "\<forall>i \<in> set ks. i \<noteq> k" by auto
    then have "filter (of_computed k) (concat (map (recompute_events h) ks)) = []"
      by (induction ks) (simp_all add: of_computed_other)
    with True show ?thesis by simp
  next
    case False
    with Cons show ?thesis by (simp add: of_computed_other)
  qed
qed

lemma of_computed_state_invokes:
  "filter (of_computed k) (map (\<lambda>l. Invoke (OfState a) l v) ls) = []"
  by (induction ls) simp_all

lemma computed_after_set:
  assumes "states h0 a = Some s0"
    and "states h a = Some s" and "computeds h k = Some c"
    and "c_computeFn c = (\<lambda>ar vs. fn ar (vs a))"
    and "k \<in> set (s_computedStates s)" and "distinct (s_computedStates s)"
    and "set (s_computedStates s) \<subseteq> dom (computeds h)" and "x \<noteq> s_value s"
  shows "cvalueOf (snd (State_map a fn h0)) (fst (State_map a fn h0)) = fn (arrays h0) (s_value s0)
       \<and> fst (State_map a fn h0) \<in> set (registered (snd (State_map a fn h0)) a)
       \<and> trace (snd (State_map a fn h0)) = trace h0
       \<and> cvalueOf (State_set_value a x h) k = fn (arrays h) x
       \<and> filter (of_computed k) (drop (length (trace h)) (trace (State_set_value a x h)))
            = (if fn (arrays h) x \<noteq> c_value c
               then map (\<lambda>l. Invoke (OfComputed k) l (fn (arrays h) x)) (c_listeners c)
               else [])"
proof (intro conjI)
  show "cvalueOf (snd (State_map a fn h0)) (fst (State_map a fn h0)) = fn (arrays h0) (s_value s0)"
    using assms(1)
    by (simp add: State_map_def ComputedState_new_def Let_def register_computed_def
          cvalueOf_def valueOf_def set_add_def)
  show "fst (State_map a fn h0) \<in> set (registered (snd (State_map a fn h0)) a)"
    using assms(1)
    by (simp add: State_map_def ComputedState_new_def Let_def register_computed_def
          registered_def set_add_def)
  show "trace (snd (State_map a fn h0)) = trace h0"
    using assms(1)
    by (simp add: State_map_def ComputedState_new_def Let_def register_computed_def)
next
  let ?h = "h\<lparr>states := (states h)(a \<mapsto> s\<lparr>s_value := x\<rparr>)\<rparr>"
  have eq: "State_set_value a x h
     = h\<lparr>states := (states h)(a \<mapsto> s\<lparr>s_value := x\<rparr>),
         computeds := recompute_all ?h (s_computedStates s),
         trace := trace h @ map (\<lambda>l. Invoke (OfState a) l x) (s_listeners s)
                  @ concat (map (recompute_events ?h) (s_computedStates s))\<rparr>"
    using assms(2,8,6,7) by (rule set_value_char)
  have rv: "recomputed_value ?h c = fn (arrays h) x"
    using assms(4) by (simp add: recomputed_value_def valueOf_def)
  have ck: "computeds ?h k = Some c" using assms(3) by simp
  show "cvalueOf (State_set_value a x h) k = fn (arrays h) x"
    using assms(5) rv ck by (simp add: eq cvalueOf_def recompute_all_def)
  have "filter (of_computed k) (drop (length (trace h)) (trace (State_set_value a x h)))
      = filter (of_computed k) (recompute_events ?h k)"
    using assms(5,6) by (simp add: eq of_computed_state_invokes of_computed_concat)
  also have "\<dots> = (if fn (arrays h) x \<noteq> c_value c
                   then map (\<lambda>l. Invoke (OfComputed k) l (fn (arrays h) x)) (c_listeners c)
                   else [])"
    using of_computed_own[OF ck] rv by simp
  finally show "filter (of_computed k) (drop (length (trace h)) (trace (State_set_value a x h)))
                = (if fn (arrays h) x \<noteq> c_value c
                   then map (\<lambda>l. Invoke (OfComputed k) l (fn (arrays h) x)) (c_listeners c)
                   else [])" .
qed

lemma valueOf_arrays [simp]: "valueOf (h\<lparr>arrays := m\<rparr>) = valueOf h"
  by (rule ext) (simp add: valueOf_def)

text \<open>
  C7. \<open>push(item)\<close> on a State holding an array appends the item to that array in
  place, leaves the stored reference as it is, and then runs the notify pass on the
  heap that has the longer array: every listener is invoked with the reference, then
  every registered ComputedState is recomputed, once each and in order, and holds
  afterwards what its compute function gives on the array with the item. Assigning
  the same reference with the setter would do nothing.
\<close>

theorem C7_push_notifies_unconditionally:
  assumes "states h a = Some s" and "s_value s = Ref r" and "arrays h r = Some xs"
    and "distinct (s_computedStates s)"
    and "set (s_computedStates s) \<subseteq> dom (computeds h)"
  shows "\<exists>h' rest. State_push a item h = (Return (), h')
          \<and> arrays h' r = Some (xs @ [item])
          \<and> valueOf h' a = Ref r
          \<and> trace h' = trace h @ map (\<lambda>l. Invoke (OfState a) l (Ref r)) (s_listeners s) @ rest
          \<and> rest = concat (map (recompute_events (h\<lparr>arrays := (arrays h)(r \<mapsto> xs @ [item])\<rparr>))
                              (s_computedStates s))
          \<and> (\<forall>e \<in> set rest. \<not> from_State e)
          \<and> filter is_Recompute rest = map Recompute (s_computedStates s)
          \<and> (\<forall>k c. k \<in> set (s_computedStates s) \<and> computeds h k = Some c \<longrightarrow>
                cvalueOf h' k = c_computeFn c ((arrays h)(r \<mapsto> xs @ [item])) (valueOf h))
          \<and> State_set_value a (Ref r) h = h"
proof -
  let ?h = "h\<lparr>arrays := (arrays h)(r \<mapsto> xs @ [item])\<rparr>"
  let ?rest = "concat (map (recompute_events ?h) (s_computedStates s))"
  have st: "states ?h a = Some s" using assms(1) by simp
  have sub: "set (s_computedStates s) \<subseteq> dom (computeds ?h)" using assms(5) by simp
  have n: "State_notify a ?h
     = ?h\<lparr>computeds := recompute_all ?h (s_computedStates s),
          trace := trace ?h @ notify_events ?h a s\<rparr>"
    using st assms(4) sub by (rule notify_char)
  have p: "State_push a item h = (Return (), State_notify a ?h)"
    using assms(1,2,3) by (simp add: State_push_def)
  have 1: "arrays (State_notify a ?h) r = Some (xs @ [item])"
    by (simp add: n)
  have 2: "valueOf (State_notify a ?h) a = Ref r"
    using assms(1,2) by (simp add: n valueOf_def)
  have 3: "trace (State_notify a ?h)
      = trace h @ map (\<lambda>l. Invoke (OfState a) l (Ref r)) (s_listeners s) @ ?rest"
    using assms(2) by (simp add: n notify_events_def)
  have 4: "\<forall>e \<in> set ?rest. \<not> from_State e"
    by (auto dest: from_State_recompute_events)
  have 5: "filter is_Recompute ?rest = map Recompute (s_computedStates s)"
    using sub by (rule filter_Recompute_concat)
  have 6: "\<forall>k c. k \<in> set (s_computedStates s) \<and> computeds h k = Some c \<longrightarrow>
                cvalueOf (State_notify a ?h) k
                  = c_computeFn c ((arrays h)(r \<mapsto> xs @ [item])) (valueOf h)"
    by (simp add: n cvalueOf_def recompute_all_def recomputed_value_def)
  have 7: "State_set_value a (Ref r) h = h"
    using assms(1,2) by (simp add: State_set_value_def)
  from p 1 2 3 4 5 6 7 show ?thesis by blast
qed

text \<open>
  An instance of C7: pushing 9 onto the array [1, 2] held by a cell with one listener
  and a computed cell for the length of the array, which becomes 3.
\<close>

theorem C7_witness:
  "\<exists>h'. State_push 0 (Num 9) demo_length = (Return (), h')
        \<and> arrays h' 0 = Some [Num 1, Num 2, Num 9]
        \<and> cvalueOf h' 0 = Num 3
        \<and> trace h' = [Invoke (OfState 0) 3 (Ref 0), Recompute 0, Invoke (OfComputed 0) 7 (Num 3)]
        \<and> State_set_value 0 (Ref 0) demo_length = demo_length"
proof -
  have v: "s_value \<lparr>s_value = Ref 0, s_listeners = [3], s_computedStates = [0]\<rparr> = Ref 0"
    and d: "distinct (s_computedStates \<lparr>s_value = Ref 0, s_listeners = [3], s_computedStates = [0]\<rparr>)"
    by simp_all
  have s: "set (s_computedStates \<lparr>s_value = Ref 0, s_listeners = [3], s_computedStates = [0]\<rparr>)
            \<subseteq> dom (computeds demo_length)"
    using demo_length_computeds by auto
  from C7_push_notifies_unconditionally[OF demo_length_states v demo_length_arrays d s, of "Num 9"]
  obtain h' rest where
    p: "State_push 0 (Num 9) demo_length = (Return (), h')"
    and a: "arrays h' 0 = Some ([Num 1, Num 2] @ [Num 9])"
    and t: "trace h' = trace demo_length
              @ map (\<lambda>l. Invoke (OfState 0) l (Ref 0))
                  (s_listeners \<lparr>s_value = Ref 0, s_listeners = [3], s_computedStates = [0]\<rparr>)
              @ rest"
    and r: "rest = concat (map (recompute_events
                 (demo_length\<lparr>arrays := (arrays demo_length)(0 \<mapsto> [Num 1, Num 2] @ [Num 9])\<rparr>))
                 (s_computedStates \<lparr>s_value = Ref 0, s_listeners = [3], s_computedStates = [0]\<rparr>))"
    and c: "\<forall>k c. k \<in> set (s_computedStates \<lparr>s_value = Ref 0, s_listeners = [3], s_computedStates = [0]\<rparr>)
                \<and> computeds demo_length k = Some c \<longrightarrow>
                cvalueOf h' k = c_computeFn c ((arrays demo_length)(0 \<mapsto> [Num 1, Num 2] @ [Num 9]))
                                  (valueOf demo_length)"
    and e: "State_set_value 0 (Ref 0) demo_length = demo_length"
    by blast
  from c demo_length_computeds have cv: "cvalueOf h' 0 = Num 3"
    by (simp add: len_def valueOf_def demo_length_states)
  have "rest = [Recompute 0, Invoke (OfComputed 0) 7 (Num 3)]"
    by (simp add: r recompute_events_def demo_length_computeds recomputed_value_def len_def
          valueOf_def demo_length_states)
  with t have "trace h' = [Invoke (OfState 0) 3 (Ref 0), Recompute 0, Invoke (OfComputed 0) 7 (Num 3)]"
    by (simp add: demo_length_trace)
  with p a cv e show ?thesis by simp
qed

text \<open>
  C4 as stated fails for \<open>push\<close>: on a State holding the number 5, which is not an
  array, \<open>push(1)\<close> returns normally and raises nothing.
\<close>

theorem C4_push_silent_counterexample:
  "\<not> isArray (snd (State_new (Num 5) heap_init)) (valueOf (snd (State_new (Num 5) heap_init)) 0)
   \<and> State_push 0 (Num 1) (snd (State_new (Num 5) heap_init))
       = (Return (), snd (State_new (Num 5) heap_init))"
  by (simp add: State_new_def heap_init_def isArray_def State_push_def valueOf_def)

text \<open>
  C4, amended. On a State whose value is not an array, \<open>push(item)\<close> returns
  normally without any effect, and \<open>filter(predicate)\<close> throws the error
  "filter() can only be used on array states"; neither changes the heap, so no
  listener runs and the stored value stays.
\<close>

theorem C4_non_array_push_filter:
  assumes "states h a = Some s" and "\<not> isArray h (s_value s)"
  shows "State_push a item h = (Return (), h)
       \<and> State_filter a predicate h = (Throw ''filter() can only be used on array states'', h)"
  using assms
  by (auto simp: State_push_def State_filter_def isArray_def split: val.splits option.splits)

text \<open>
  An instance of the amended C4 on the cell holding 5.
\<close>

theorem C4_witness:
  "\<not> isArray demo (Num 5)
   \<and> State_push 0 (Num 1) demo = (Return (), demo)
   \<and> State_filter 0 (\<lambda>v. True) demo
       = (Throw ''filter() can only be used on array states'', demo)"
proof -
  have n: "\<not> isArray demo (s_value \<lparr>s_value = Num 5, s_listeners = [3], s_computedStates = [0]\<rparr>)"
    by (simp add: isArray_def)
  from C4_non_array_push_filter[OF demo_states n] n show ?thesis by simp
qed

lemma recompute_ext:
  "\<exists>new. trace (ComputedState_recompute k h) = trace h @ new
        \<and> (\<forall>j. Recompute j \<in> set new \<longrightarrow> j = k)
        \<and> states (ComputedState_recompute k h) = states h"
proof (cases "computeds h k")
  case None
  then show ?thesis by (simp add: ComputedState_recompute_def)
next
  case (Some c)
  show ?thesis
    unfolding recompute_char[OF Some]
    by (auto simp: recompute_events_def Some)
qed

lemma foldl_recompute_ext:
  "\<exists>new. trace (foldl (\<lambda>h' k. ComputedState_recompute k h') h ks) = trace h @ new
        \<and> (\<forall>j. Recompute j \<in> set new \<longrightarrow> j \<in> set ks)
        \<and> states (foldl (\<lambda>h' k. ComputedState_recompute k h') h ks) = states h"
proof (induction ks rule: rev_induct)
  case Nil
  show ?case by simp
next
  case (snoc k ks)
  let ?H = "foldl (\<lambda>h' k. ComputedState_recompute k h') h ks"
  from snoc obtain n1 where n1: "trace ?H = trace h @ n1"
    "\<forall>j. Recompute j \<in> set n1 \<longrightarrow> j \<in> set ks" "states ?H = states h" by blast
  from recompute_ext[of k ?H] obtain n2 where n2:
    "trace (ComputedState_recompute k ?H) = trace ?H @ n2"
    "\<forall>j. Recompute j \<in> set n2 \<longrightarrow> j = k"
    "states (ComputedState_recompute k ?H) = states ?H" by blast
  have "trace (foldl (\<lambda>h' k. ComputedState_recompute k h') h (ks @ [k])) = trace h @ (n1 @ n2)"
    using n1(1) n2(1) by simp
  moreover have "\<forall>j. Recompute j \<in> set (n1 @ n2) \<longrightarrow> j \<in> set (ks @ [k])"
    using n1(2) n2(2) by auto
  moreover have "states (foldl (\<lambda>h' k. ComputedState_recompute k h') h (ks @ [k])) = states h"
    using n1(3) n2(3) by simp
  ultimately show ?case by blast
qed

lemma notify_ext:
  "\<exists>new. trace (State_notify a h) = trace h @ new
        \<and> (\<forall>j. Recompute j \<in> set new \<longrightarrow> j \<in> set (registered h a))
        \<and> states (State_notify a h) = states h"
proof (cases "states h a")
  case None
  then show ?thesis by (simp add: State_notify_def)
next
  case (Some s)
  let ?h1 = "foldl (call_listener (OfState a)) h (s_listeners s)"
  have h1: "?h1 = h\<lparr>trace := trace h @ map (\<lambda>l. Invoke (OfState a) l (s_value s)) (s_listeners s)\<rparr>"
    using Some by (simp add: foldl_call_listener valueOf_def)
  from foldl_recompute_ext[of ?h1 "s_computedStates s"] obtain n where n:
    "trace (foldl (\<lambda>h' k. ComputedState_recompute k h') ?h1 (s_computedStates s)) = trace ?h1 @ n"
    "\<forall>j. Recompute j \<in> set n \<longrightarrow> j \<in> set (s_computedStates s)"
    "states (foldl (\<lambda>h' k. ComputedState_recompute k h') ?h1 (s_computedStates s)) = states ?h1"
    by blast
  have N: "State_notify a h = foldl (\<lambda>h' k. ComputedState_recompute k h') ?h1 (s_computedStates s)"
    using Some by (simp add: State_notify_def)
  have "trace (State_notify a h)
          = trace h @ (map (\<lambda>l. Invoke (OfState a) l (s_value s)) (s_listeners s) @ n)"
    using n(1) by (simp add: N h1)
  moreover have "\<forall>j. Recompute j \<in> set (map (\<lambda>l. Invoke (OfState a) l (s_value s)) (s_listeners s) @ n)
                   \<longrightarrow> j \<in> set (registered h a)"
    using n(2) Some by (auto simp: registered_def)
  moreover have "states (State_notify a h) = states h"
    using n(3) by (simp add: N h1)
  ultimately show ?thesis by blast
qed

lemma set_value_ext:
  "\<exists>new. trace (State_set_value a v h) = trace h @ new
        \<and> (\<forall>j. Recompute j \<in> set new \<longrightarrow> j \<in> set (registered h a))
        \<and> registered (State_set_value a v h) = registered h"
proof (cases "states h a")
  case None
  then show ?thesis by (simp add: State_set_value_def)
next
  case (Some s)
  show ?thesis
  proof (cases "v = s_value s")
    case True
    with Some show ?thesis by (simp add: State_set_value_def)
  next
    case False
    let ?h = "h\<lparr>states := (states h)(a \<mapsto> s\<lparr>s_value := v\<rparr>)\<rparr>"
    have S: "State_set_value a v h = State_notify a ?h"
      using Some False by (simp add: State_set_value_def)
    have R: "registered ?h = registered h"
      using Some by (rule_tac ext) (simp add: registered_def)
    from notify_ext[of a ?h] obtain n where n:
      "trace (State_notify a ?h) = trace ?h @ n"
      "\<forall>j. Recompute j \<in> set n \<longrightarrow> j \<in> set (registered ?h a)"
      "states (State_notify a ?h) = states ?h" by blast
    have "registered (State_notify a ?h) = registered ?h"
      using n(3) by (rule_tac ext) (simp add: registered_def)
    with n R S show ?thesis by auto
  qed
qed

lemma run_sets_ext:
  "\<exists>new. trace (run_sets ms h) = trace h @ new
        \<and> (\<forall>j. Recompute j \<in> set new \<longrightarrow> (\<exists>a \<in> fst ` set ms. j \<in> set (registered h a)))
        \<and> registered (run_sets ms h) = registered h"
proof (induction ms rule: rev_induct)
  case Nil
  show ?case by (simp add: run_sets_def)
next
  case (snoc m ms)
  obtain a v where m: "m = (a, v)" by (cases m)
  let ?H = "run_sets ms h"
  from snoc obtain n1 where n1: "trace ?H = trace h @ n1"
    "\<forall>j. Recompute j \<in> set n1 \<longrightarrow> (\<exists>a \<in> fst ` set ms. j \<in> set (registered h a))"
    "registered ?H = registered h" by blast
  from set_value_ext[of a v ?H] obtain n2 where n2:
    "trace (State_set_value a v ?H) = trace ?H @ n2"
    "\<forall>j. Recompute j \<in> set n2 \<longrightarrow> j \<in> set (registered ?H a)"
    "registered (State_set_value a v ?H) = registered ?H" by blast
  have R: "run_sets (ms @ [m]) h = State_set_value a v ?H"
    by (simp add: run_sets_def m)
  have "trace (run_sets (ms @ [m]) h) = trace h @ (n1 @ n2)"
    using n1(1) n2(1) R by simp
  moreover have "\<forall>j. Recompute j \<in> set (n1 @ n2)
                  \<longrightarrow> (\<exists>a \<in> fst ` set (ms @ [m]). j \<in> set (registered h a))"
    using n1(2,3) n2(2) m by force
  moreover have "registered (run_sets (ms @ [m]) h) = registered h"
    using n1(3) n2(3) R by simp
  ultimately show ?case by blast
qed

text \<open>
  C8. \<open>recompute()\<close> of a ComputedState changes no State and no other
  ComputedState; it appends its own \<open>Recompute\<close> event followed only by invocations
  of its own subscribers with its new value, so it never triggers the recomputation
  of another ComputedState. Over any sequence of assignments to States, every
  ComputedState that is recomputed is registered directly with one of the assigned
  States.
\<close>

theorem C8_recompute_is_single_hop:
  "(\<forall>c. computeds h k = Some c \<longrightarrow>
      states (ComputedState_recompute k h) = states h
    \<and> arrays (ComputedState_recompute k h) = arrays h
    \<and> (\<forall>j. j \<noteq> k \<longrightarrow> computeds (ComputedState_recompute k h) j = computeds h j)
    \<and> (\<exists>own. trace (ComputedState_recompute k h) = trace h @ Recompute k # own
             \<and> (\<forall>e \<in> set own. \<exists>l \<in> set (c_listeners c).
                    e = Invoke (OfComputed k) l (cvalueOf (ComputedState_recompute k h) k))))
   \<and> (\<forall>j. Recompute j \<in> set (drop (length (trace h)) (trace (run_sets ms h)))
          \<longrightarrow> (\<exists>a \<in> fst ` set ms. j \<in> set (registered h a)))"
proof (intro conjI allI impI)
  fix c assume c: "computeds h k = Some c"
  note rc = recompute_char[OF c]
  show "states (ComputedState_recompute k h) = states h" by (simp add: rc)
  show "arrays (ComputedState_recompute k h) = arrays h" by (simp add: rc)
  show "\<exists>own. trace (ComputedState_recompute k h) = trace h @ Recompute k # own
             \<and> (\<forall>e \<in> set own. \<exists>l \<in> set (c_listeners c).
                    e = Invoke (OfComputed k) l (cvalueOf (ComputedState_recompute k h) k))"
    by (auto simp: rc recompute_events_def c cvalueOf_def)
  fix j assume "j \<noteq> k"
  then show "computeds (ComputedState_recompute k h) j = computeds h j" by (simp add: rc)
next
  fix j assume j: "Recompute j \<in> set (drop (length (trace h)) (trace (run_sets ms h)))"
  from run_sets_ext[of ms h] obtain new where
    "trace (run_sets ms h) = trace h @ new"
    "\<forall>j. Recompute j \<in> set new \<longrightarrow> (\<exists>a \<in> fst ` set ms. j \<in> set (registered h a))" by blast
  with j show "\<exists>a \<in> fst ` set ms. j \<in> set (registered h a)" by simp
qed

text \<open>
  An instance of C8: three assignments to the one cell recompute only its computed cell.
\<close>

theorem C8_witness:
  "states (ComputedState_recompute 0 demo) = states demo
   \<and> set (filter is_Recompute (trace (run_sets [(0, Num 7), (0, Num 7), (0, Num 1)] demo)))
       \<subseteq> {Recompute 0}"
proof -
  note t = C8_recompute_is_single_hop[of demo 0 "[(0, Num 7), (0, Num 7), (0, Num 1)]"]
  from t demo_computeds have a: "states (ComputedState_recompute 0 demo) = states demo"
    by simp
  have b: "e = Recompute 0"
    if "e \<in> set (filter is_Recompute (trace (run_sets [(0, Num 7), (0, Num 7), (0, Num 1)] demo)))"
    for e
  proof -
    from that have r: "is_Recompute e"
      and m: "e \<in> set (trace (run_sets [(0, Num 7), (0, Num 7), (0, Num 1)] demo))"
      by simp_all
    from r obtain j where j: "e = Recompute j" by (cases e) simp_all
    with m t have "j \<in> set (registered demo 0)"
      by (simp add: demo_trace)
    then show ?thesis using j by (simp add: registered_def demo_states)
  qed
  from a b show ?thesis by blast
qed

lemma set_add_idem: "set_add l (set_add l ls) = set_add l ls"
  by (simp add: set_add_def)

lemma count_list_distinct:
  "distinct xs \<Longrightarrow> x \<in> set xs \<Longrightarrow> count_list xs x = 1"
  using count_list_map_inj[of xs "\<lambda>y. y" x] by (simp add: inj_def)

lemma set_add_distinct: "distinct ls \<Longrightarrow> distinct (set_add l ls)"
  by (simp add: set_add_def)

lemma set_add_count: "distinct ls \<Longrightarrow> count_list (set_add l ls) l = 1"
  by (rule count_list_distinct) (simp_all add: set_add_def)

lemma subscribe_twice: "subscribe_to src l (subscribe_to src l h) = subscribe_to src l h"
  by (cases src)
     (simp_all add: State_subscribe_def ComputedState_subscribe_def set_add_idem
           split: option.splits)

lemma unsubscribe_twice:
  "unsubscribe_from src l (unsubscribe_from src l h) = unsubscribe_from src l h"
  by (cases src)
     (simp_all add: State_unsubscribe_def ComputedState_unsubscribe_def set_delete_def
           split: option.splits)

lemma listenersOf_unsubscribe:
  "listenersOf (unsubscribe_from src l h) src = filter (\<lambda>x. x \<noteq> l) (listenersOf h src)"
proof (cases src)
  case (OfState a)
  then show ?thesis
    by (cases "states h a")
       (simp_all add: listenersOf_def State_unsubscribe_def set_delete_def
          removeAll_filter_not_eq, metis)
next
  case (OfComputed k)
  then show ?thesis
    by (cases "computeds h k")
       (simp_all add: listenersOf_def ComputedState_unsubscribe_def set_delete_def
          removeAll_filter_not_eq, metis)
qed

lemma removeAll_absent: "l \<notin> set ls \<Longrightarrow> removeAll l ls = ls"
  by simp

lemma unsubscribe_absent:
  "l \<notin> set (listenersOf h src) \<Longrightarrow> unsubscribe_from src l h = h"
proof (cases src)
  case (OfState a)
  assume n: "l \<notin> set (listenersOf h src)"
  show ?thesis
  proof (cases "states h a")
    case None
    with OfState show ?thesis by (simp add: State_unsubscribe_def)
  next
    case (Some s)
    with n OfState have "s\<lparr>s_listeners := set_delete l (s_listeners s)\<rparr> = s"
      by (simp add: listenersOf_def set_delete_def)
    with Some OfState show ?thesis by (simp add: State_unsubscribe_def fun_upd_idem)
  qed
next
  case (OfComputed k)
  assume n: "l \<notin> set (listenersOf h src)"
  show ?thesis
  proof (cases "computeds h k")
    case None
    with OfComputed show ?thesis by (simp add: ComputedState_unsubscribe_def)
  next
    case (Some c)
    with n OfComputed have "c\<lparr>c_listeners := set_delete l (c_listeners c)\<rparr> = c"
      by (simp add: listenersOf_def set_delete_def)
    with Some OfComputed show ?thesis by (simp add: ComputedState_unsubscribe_def fun_upd_idem)
  qed
qed

lemma listenersOf_subscribe_exists:
  "exists_in h src \<Longrightarrow> listenersOf (subscribe_to src l h) src = set_add l (listenersOf h src)"
  by (cases src)
     (auto simp: exists_in_def listenersOf_def State_subscribe_def ComputedState_subscribe_def
           split: option.splits)

lemma count_list_append_zero:
  "count_list xs x = 1 \<Longrightarrow> x \<notin> set ys \<Longrightarrow> count_list (xs @ ys) x = 1"
  by (simp add: count_list_zero)

lemma notify_after_subscribe_once:
  assumes s: "states h a = Some s" and dl: "distinct (s_listeners s)"
    and dc: "distinct (s_computedStates s)"
    and sub: "set (s_computedStates s) \<subseteq> dom (computeds h)"
  shows "count_list (drop (length (trace h))
            (trace (State_notify a (State_subscribe a l (State_subscribe a l h)))))
           (Invoke (OfState a) l (s_value s)) = 1"
proof -
  let ?s = "s\<lparr>s_listeners := set_add l (s_listeners s)\<rparr>"
  let ?h = "h\<lparr>states := (states h)(a \<mapsto> ?s)\<rparr>"
  let ?inv = "map (\<lambda>x. Invoke (OfState a) x (s_value s)) (set_add l (s_listeners s))"
  let ?rest = "concat (map (recompute_events ?h) (s_computedStates s))"
  have h2: "State_subscribe a l (State_subscribe a l h) = ?h"
    using s by (simp add: State_subscribe_def set_add_idem)
  have st: "states ?h a = Some ?s" by simp
  have "State_notify a ?h
     = ?h\<lparr>computeds := recompute_all ?h (s_computedStates ?s),
          trace := trace ?h @ notify_events ?h a ?s\<rparr>"
    using st by (rule notify_char) (simp_all add: dc sub)
  then have tr: "drop (length (trace h)) (trace (State_notify a ?h)) = ?inv @ ?rest"
    by (simp add: notify_events_def)
  have "count_list ?inv (Invoke (OfState a) l (s_value s)) = 1"
    by (rule count_list_map_inj) (simp_all add: set_add_distinct dl inj_def set_add_def)
  moreover have "Invoke (OfState a) l (s_value s) \<notin> set ?rest"
    using from_State_recompute_events by force
  ultimately have "count_list (?inv @ ?rest) (Invoke (OfState a) l (s_value s)) = 1"
    by (rule count_list_append_zero)
  then show ?thesis by (simp only: h2 tr)
qed

lemma recompute_after_subscribe_once:
  assumes c: "computeds h k = Some c" and dl: "distinct (c_listeners c)"
    and ch: "recomputed_value h c \<noteq> c_value c"
  shows "count_list (drop (length (trace h))
            (trace (ComputedState_recompute k
                      (ComputedState_subscribe k l (ComputedState_subscribe k l h)))))
           (Invoke (OfComputed k) l (recomputed_value h c)) = 1"
proof -
  let ?c = "c\<lparr>c_listeners := set_add l (c_listeners c)\<rparr>"
  let ?h = "h\<lparr>computeds := (computeds h)(k \<mapsto> ?c)\<rparr>"
  let ?inv = "map (\<lambda>x. Invoke (OfComputed k) x (recomputed_value h c)) (set_add l (c_listeners c))"
  have h2: "ComputedState_subscribe k l (ComputedState_subscribe k l h) = ?h"
    using c by (simp add: ComputedState_subscribe_def set_add_idem)
  have ck: "computeds ?h k = Some ?c" by simp
  have rv: "recomputed_value ?h ?c = recomputed_value h c"
    by (simp add: recomputed_value_def)
  have "drop (length (trace h)) (trace (ComputedState_recompute k ?h)) = Recompute k # ?inv"
    using ch by (simp add: recompute_char[OF ck] recompute_events_def rv)
  moreover have "count_list ?inv (Invoke (OfComputed k) l (recomputed_value h c)) = 1"
    by (rule count_list_map_inj) (simp_all add: set_add_distinct dl inj_def set_add_def)
  ultimately show ?thesis by (simp add: h2)
qed

text \<open>
  C9. For a State or a ComputedState with a duplicate-free listener set: subscribing
  the same listener twice gives the same heap as subscribing it once, the listener
  is then registered exactly once, and a notify pass of the State (a value-changing
  recompute of the ComputedState) invokes it exactly once. Calling the unsubscribe
  closure twice is the same as calling it once; calling it for a listener that is
  not registered changes nothing; and it removes that listener only, keeping all
  others in their order.
\<close>

theorem C9_subscribe_set_semantics:
  assumes "exists_in h src" and "distinct (listenersOf h src)"
  shows "subscribe_to src l (subscribe_to src l h) = subscribe_to src l h
       \<and> count_list (listenersOf (subscribe_to src l (subscribe_to src l h)) src) l = 1
       \<and> (\<forall>a s. src = OfState a \<and> states h a = Some s \<and> distinct (s_computedStates s)
              \<and> set (s_computedStates s) \<subseteq> dom (computeds h)
            \<longrightarrow> count_list (drop (length (trace h))
                    (trace (State_notify a (subscribe_to src l (subscribe_to src l h)))))
                   (Invoke (OfState a) l (s_value s)) = 1)
       \<and> (\<forall>k c. src = OfComputed k \<and> computeds h k = Some c
              \<and> recomputed_value h c \<noteq> c_value c
            \<longrightarrow> count_list (drop (length (trace h))
                    (trace (ComputedState_recompute k (subscribe_to src l (subscribe_to src l h)))))
                   (Invoke (OfComputed k) l (recomputed_value h c)) = 1)
       \<and> unsubscribe_from src l (unsubscribe_from src l h) = unsubscribe_from src l h
       \<and> (l \<notin> set (listenersOf h src) \<longrightarrow> unsubscribe_from src l h = h)
       \<and> listenersOf (unsubscribe_from src l h) src
           = filter (\<lambda>x. x \<noteq> l) (listenersOf h src)"
proof -
  let ?h2 = "subscribe_to src l (subscribe_to src l h)"
  have tw: "?h2 = subscribe_to src l h" by (rule subscribe_twice)
  have ls: "listenersOf ?h2 src = set_add l (listenersOf h src)"
    using assms(1) by (simp add: tw listenersOf_subscribe_exists)
  have c1: "count_list (listenersOf ?h2 src) l = 1"
    using assms(2) by (simp add: ls set_add_count)
  have n1: "\<forall>a s. src = OfState a \<and> states h a = Some s \<and> distinct (s_computedStates s)
              \<and> set (s_computedStates s) \<subseteq> dom (computeds h)
            \<longrightarrow> count_list (drop (length (trace h)) (trace (State_notify a ?h2)))
                   (Invoke (OfState a) l (s_value s)) = 1"
  proof (intro allI impI)
    fix a s
    assume A: "src = OfState a \<and> states h a = Some s \<and> distinct (s_computedStates s)
              \<and> set (s_computedStates s) \<subseteq> dom (computeds h)"
    with assms(2) have "distinct (s_listeners s)" by (simp add: listenersOf_def)
    with A show "count_list (drop (length (trace h)) (trace (State_notify a ?h2)))
                   (Invoke (OfState a) l (s_value s)) = 1"
      using notify_after_subscribe_once[of h a s l] by simp
  qed
  have n2: "\<forall>k c. src = OfComputed k \<and> computeds h k = Some c
              \<and> recomputed_value h c \<noteq> c_value c
            \<longrightarrow> count_list (drop (length (trace h)) (trace (ComputedState_recompute k ?h2)))
                   (Invoke (OfComputed k) l (recomputed_value h c)) = 1"
  proof (intro allI impI)
    fix k c
    assume A: "src = OfComputed k \<and> computeds h k = Some c
              \<and> recomputed_value h c \<noteq> c_value c"
    with assms(2) have "distinct (c_listeners c)" by (simp add: listenersOf_def)
    with A show "count_list (drop (length (trace h)) (trace (ComputedState_recompute k ?h2)))
                   (Invoke (OfComputed k) l (recomputed_value h c)) = 1"
      using recompute_after_subscribe_once[of h k c l] by simp
  qed
  have ua: "l \<notin> set (listenersOf h src) \<longrightarrow> unsubscribe_from src l h = h"
    using unsubscribe_absent[of l h src] by blast
  show ?thesis
    using tw c1 n1 n2 unsubscribe_twice[of src l h] ua listenersOf_unsubscribe[of src l h]
    by (intro conjI) assumption+
qed

text \<open>
  An instance of C9 on the cell holding 5 with listener 3.
\<close>

theorem C9_witness:
  "count_list (trace (State_notify 0 (State_subscribe 0 3 (State_subscribe 0 3 demo))))
        (Invoke (OfState 0) 3 (Num 5)) = 1
   \<and> State_unsubscribe 0 8 demo = demo
   \<and> listenersOf (State_unsubscribe 0 3 demo) (OfState 0) = []"
proof -
  have e: "exists_in demo (OfState 0)"
    by (simp add: exists_in_def demo_states)
  have d: "distinct (listenersOf demo (OfState 0))"
    by (simp add: listenersOf_def demo_states)
  have ls: "listenersOf demo (OfState 0) = [3]"
    by (simp add: listenersOf_def demo_states)
  have dm: "0 \<in> dom (computeds demo)"
    using demo_computeds by blast
  from C9_subscribe_set_semantics[OF e d, of 3] C9_subscribe_set_semantics[OF e d, of 8]
  show ?thesis
    using demo_states dm by (auto simp: ls demo_trace)
qed

lemma heap_wf_trace [simp]: "heap_wf (h\<lparr>trace := t\<rparr>) = heap_wf h"
  by (simp add: heap_wf_def)

lemma heap_wf_arrays [simp]: "heap_wf (h\<lparr>arrays := ar\<rparr>) = heap_wf h"
  by (simp add: heap_wf_def)

lemma heap_init_wf: "heap_wf heap_init"
  by (simp add: heap_wf_def heap_init_def)

lemma State_new_wf: "heap_wf h \<Longrightarrow> heap_wf (snd (State_new v h))"
  by (auto simp: heap_wf_def State_new_def)

lemma set_delete_distinct: "distinct ls \<Longrightarrow> distinct (set_delete l ls)"
  by (simp add: set_delete_def distinct_removeAll)

lemma State_subscribe_wf: "heap_wf h \<Longrightarrow> heap_wf (State_subscribe a l h)"
  by (auto simp: heap_wf_def State_subscribe_def set_add_distinct split: option.splits)

lemma State_unsubscribe_wf: "heap_wf h \<Longrightarrow> heap_wf (State_unsubscribe a l h)"
  by (auto simp: heap_wf_def State_unsubscribe_def set_delete_distinct split: option.splits)

lemma ComputedState_subscribe_wf: "heap_wf h \<Longrightarrow> heap_wf (ComputedState_subscribe k l h)"
  by (auto simp: heap_wf_def ComputedState_subscribe_def set_add_distinct
           split: option.splits if_splits)

lemma ComputedState_unsubscribe_wf: "heap_wf h \<Longrightarrow> heap_wf (ComputedState_unsubscribe k l h)"
  by (auto simp: heap_wf_def ComputedState_unsubscribe_def set_delete_distinct
           split: option.splits if_splits)

lemma register_computed_wf:
  "heap_wf h \<Longrightarrow> k \<in> dom (computeds h) \<Longrightarrow>
   heap_wf (register_computed k h dep) \<and> k \<in> dom (computeds (register_computed k h dep))"
  by (auto simp: heap_wf_def register_computed_def set_add_def split: option.splits)

lemma foldl_register_wf:
  "heap_wf h \<Longrightarrow> k \<in> dom (computeds h) \<Longrightarrow> heap_wf (foldl (register_computed k) h deps)"
proof (induction deps arbitrary: h)
  case Nil
  then show ?case by simp
next
  case (Cons dep deps)
  from register_computed_wf[OF Cons.prems, of dep] Cons.IH show ?case by simp
qed

lemma ComputedState_new_wf:
  assumes "heap_wf h"
  shows "heap_wf (snd (ComputedState_new f deps h))"
proof -
  let ?c = "\<lparr>c_value = f (arrays h) (valueOf h), c_computeFn = f,
             c_dependencies = deps, c_listeners = []\<rparr>"
  let ?h1 = "h\<lparr>computeds := (computeds h)(nextComputed h \<mapsto> ?c),
               nextComputed := Suc (nextComputed h)\<rparr>"
  have "heap_wf ?h1" using assms by (auto simp: heap_wf_def)
  moreover have "nextComputed h \<in> dom (computeds ?h1)" by simp
  ultimately have "heap_wf (foldl (register_computed (nextComputed h)) ?h1 deps)"
    by (rule foldl_register_wf)
  then show ?thesis by (simp add: ComputedState_new_def Let_def)
qed

lemma recompute_wf: "heap_wf h \<Longrightarrow> heap_wf (ComputedState_recompute k h)"
proof (cases "computeds h k")
  case None
  assume "heap_wf h"
  with None show ?thesis by (simp add: ComputedState_recompute_def)
next
  case (Some c)
  assume "heap_wf h"
  then show ?thesis
    unfolding recompute_char[OF Some]
    using Some by (auto simp: heap_wf_def)
qed

lemma foldl_recompute_wf:
  "heap_wf h \<Longrightarrow> heap_wf (foldl (\<lambda>h' k. ComputedState_recompute k h') h ks)"
  by (induction ks arbitrary: h) (simp_all add: recompute_wf)

lemma notify_wf: "heap_wf h \<Longrightarrow> heap_wf (State_notify a h)"
  by (cases "states h a")
     (simp_all add: State_notify_def foldl_call_listener foldl_recompute_wf)

lemma set_value_wf: "heap_wf h \<Longrightarrow> heap_wf (State_set_value a v h)"
proof (cases "states h a")
  case None
  assume "heap_wf h"
  with None show ?thesis by (simp add: State_set_value_def)
next
  case (Some s)
  assume wf: "heap_wf h"
  then have "heap_wf (h\<lparr>states := (states h)(a \<mapsto> s\<lparr>s_value := v\<rparr>)\<rparr>)"
    using Some by (auto simp: heap_wf_def)
  with wf Some show ?thesis by (simp add: State_set_value_def notify_wf)
qed

lemma push_wf: "heap_wf h \<Longrightarrow> heap_wf (snd (State_push a v h))"
  by (simp add: State_push_def notify_wf split: option.splits val.splits)

lemma reachable_heap_wf: "reachable h \<Longrightarrow> heap_wf h"
proof (induction rule: reachable.induct)
  case (r_init ar)
  show ?case using heap_init_wf by simp
qed (simp_all add: State_new_wf set_value_wf push_wf State_subscribe_wf State_unsubscribe_wf
       ComputedState_new_wf ComputedState_subscribe_wf ComputedState_unsubscribe_wf)

lemma reachable_hypotheses:
  assumes "reachable h" and "states h a = Some s"
  shows "distinct (s_listeners s)" and "distinct (s_computedStates s)"
    and "set (s_computedStates s) \<subseteq> dom (computeds h)"
  using reachable_heap_wf[OF assms(1)] assms(2) by (auto simp: heap_wf_def)

lemma same_shape_refl: "same_shape h h"
  by (simp add: same_shape_def)

lemma same_shape_trans: "same_shape h h1 \<Longrightarrow> same_shape h1 h2 \<Longrightarrow> same_shape h h2"
  by (simp add: same_shape_def)

lemma same_shape_follows: "same_shape h h' \<Longrightarrow> follows k f a h \<Longrightarrow> follows k f a h'"
  unfolding same_shape_def follows_def
  by (metis (no_types, lifting) map_option_eq_Some option.simps(9))

lemma registered_trace [simp]: "registered (h\<lparr>trace := t\<rparr>) = registered h"
  by (rule ext) (simp add: registered_def)

lemma recompute_shape: "same_shape h (ComputedState_recompute k h)"
proof (cases "computeds h k")
  case None
  then show ?thesis by (simp add: ComputedState_recompute_def same_shape_def)
next
  case (Some c)
  have "registered (ComputedState_recompute k h) = registered h"
    unfolding recompute_char[OF Some] by (rule ext) (simp add: registered_def)
  then show ?thesis
    unfolding recompute_char[OF Some] using Some by (simp add: same_shape_def)
qed

lemma foldl_recompute_shape:
  "same_shape h (foldl (\<lambda>h' k. ComputedState_recompute k h') h ks)"
proof (induction ks rule: rev_induct)
  case Nil
  show ?case by (simp add: same_shape_refl)
next
  case (snoc k ks)
  from snoc recompute_shape[of "foldl (\<lambda>h' k. ComputedState_recompute k h') h ks" k]
  show ?case by (simp add: same_shape_trans)
qed

lemma notify_shape: "same_shape h (State_notify a h)"
proof (cases "states h a")
  case None
  then show ?thesis by (simp add: State_notify_def same_shape_refl)
next
  case (Some s)
  let ?h1 = "foldl (call_listener (OfState a)) h (s_listeners s)"
  have "same_shape h ?h1"
    by (simp add: foldl_call_listener same_shape_def)
  from same_shape_trans[OF this foldl_recompute_shape[of ?h1 "s_computedStates s"]]
  show ?thesis using Some by (simp add: State_notify_def)
qed

lemma set_value_shape: "same_shape h (State_set_value a v h)"
proof (cases "states h a")
  case None
  then show ?thesis by (simp add: State_set_value_def same_shape_refl)
next
  case (Some s)
  let ?h = "h\<lparr>states := (states h)(a \<mapsto> s\<lparr>s_value := v\<rparr>)\<rparr>"
  have "registered ?h = registered h"
    using Some by (rule_tac ext) (simp add: registered_def)
  then have "same_shape h ?h" using Some by (simp add: same_shape_def)
  from same_shape_trans[OF this notify_shape[of ?h a]] Some
  show ?thesis by (simp add: State_set_value_def same_shape_refl)
qed

lemma registered_arrays [simp]: "registered (h\<lparr>arrays := ar\<rparr>) = registered h"
  by (rule ext) (simp add: registered_def)

lemma push_shape: "same_shape h (snd (State_push a v h))"
proof -
  have "same_shape h (h\<lparr>arrays := ar\<rparr>)" for ar
    by (simp add: same_shape_def)
  from same_shape_trans[OF this notify_shape] show ?thesis
    by (simp add: State_push_def same_shape_refl split: option.splits val.splits)
qed

lemma subscribe_shape: "same_shape h (State_subscribe a l h)"
proof (cases "states h a")
  case None
  then show ?thesis by (simp add: State_subscribe_def same_shape_refl)
next
  case (Some s)
  have "registered (State_subscribe a l h) = registered h"
    using Some by (rule_tac ext) (simp add: registered_def State_subscribe_def)
  then show ?thesis using Some by (simp add: same_shape_def State_subscribe_def)
qed

lemma unsubscribe_shape: "same_shape h (State_unsubscribe a l h)"
proof (cases "states h a")
  case None
  then show ?thesis by (simp add: State_unsubscribe_def same_shape_refl)
next
  case (Some s)
  have "registered (State_unsubscribe a l h) = registered h"
    using Some by (rule_tac ext) (simp add: registered_def State_unsubscribe_def)
  then show ?thesis using Some by (simp add: same_shape_def State_unsubscribe_def)
qed

lemma csubscribe_shape: "same_shape h (ComputedState_subscribe k l h)"
proof (cases "computeds h k")
  case None
  then show ?thesis by (simp add: ComputedState_subscribe_def same_shape_refl)
next
  case (Some c)
  have "registered (ComputedState_subscribe k l h) = registered h"
    using Some by (rule_tac ext) (simp add: registered_def ComputedState_subscribe_def)
  then show ?thesis using Some by (simp add: same_shape_def ComputedState_subscribe_def)
qed

lemma cunsubscribe_shape: "same_shape h (ComputedState_unsubscribe k l h)"
proof (cases "computeds h k")
  case None
  then show ?thesis by (simp add: ComputedState_unsubscribe_def same_shape_refl)
next
  case (Some c)
  have "registered (ComputedState_unsubscribe k l h) = registered h"
    using Some by (rule_tac ext) (simp add: registered_def ComputedState_unsubscribe_def)
  then show ?thesis using Some by (simp add: same_shape_def ComputedState_unsubscribe_def)
qed

lemma State_new_follows: "follows k f a h \<Longrightarrow> follows k f a (snd (State_new v h))"
  by (auto simp: follows_def State_new_def registered_def)

lemma register_computed_follows:
  "follows k f a h \<Longrightarrow> follows k f a (register_computed k' h dep)"
  by (auto simp: follows_def register_computed_def registered_def set_add_def
           split: option.splits)

lemma foldl_register_follows:
  "follows k f a h \<Longrightarrow> follows k f a (foldl (register_computed k') h deps)"
  by (induction deps arbitrary: h) (simp_all add: register_computed_follows)

lemma ComputedState_new_follows:
  assumes "follows k f a h"
  shows "follows k f a (snd (ComputedState_new g deps h))"
proof -
  let ?c = "\<lparr>c_value = g (arrays h) (valueOf h), c_computeFn = g,
             c_dependencies = deps, c_listeners = []\<rparr>"
  let ?h1 = "h\<lparr>computeds := (computeds h)(nextComputed h \<mapsto> ?c),
               nextComputed := Suc (nextComputed h)\<rparr>"
  have "registered ?h1 = registered h" by (rule ext) (simp add: registered_def)
  then have "follows k f a ?h1" using assms by (auto simp: follows_def)
  then show ?thesis
    by (simp add: ComputedState_new_def Let_def foldl_register_follows)
qed

lemma evolves_follows: "evolves h1 h \<Longrightarrow> follows k f a h1 \<Longrightarrow> follows k f a h"
proof (induction rule: evolves.induct)
  case (e_refl h)
  then show ?case .
next
  case (e_new h h' v)
  then show ?case by (simp add: State_new_follows)
next
  case (e_set h h' a' v)
  then show ?case using same_shape_follows[OF set_value_shape] by blast
next
  case (e_push h h' a' v)
  then show ?case using same_shape_follows[OF push_shape] by blast
next
  case (e_sub h h' a' l)
  then show ?case using same_shape_follows[OF subscribe_shape] by blast
next
  case (e_unsub h h' a' l)
  then show ?case using same_shape_follows[OF unsubscribe_shape] by blast
next
  case (e_computed h h' g deps)
  then show ?case by (simp add: ComputedState_new_follows)
next
  case (e_csub h h' k' l)
  then show ?case using same_shape_follows[OF csubscribe_shape] by blast
next
  case (e_cunsub h h' k' l)
  then show ?case using same_shape_follows[OF cunsubscribe_shape] by blast
qed

lemma evolves_wf: "evolves h1 h \<Longrightarrow> heap_wf h1 \<Longrightarrow> heap_wf h"
  by (induction rule: evolves.induct)
     (simp_all add: State_new_wf set_value_wf push_wf State_subscribe_wf State_unsubscribe_wf
       ComputedState_new_wf ComputedState_subscribe_wf ComputedState_unsubscribe_wf)

lemma same_shape_alloc: "same_shape h h' \<Longrightarrow> alloc_ok h \<Longrightarrow> alloc_ok h'"
  by (simp add: same_shape_def alloc_ok_def)

lemma register_computed_alloc: "alloc_ok h \<Longrightarrow> alloc_ok (register_computed k h dep)"
  by (auto simp: alloc_ok_def register_computed_def split: option.splits)

lemma foldl_register_alloc: "alloc_ok h \<Longrightarrow> alloc_ok (foldl (register_computed k) h deps)"
  by (induction deps arbitrary: h) (simp_all add: register_computed_alloc)

lemma reachable_alloc: "reachable h \<Longrightarrow> alloc_ok h"
proof (induction rule: reachable.induct)
  case (r_init ar)
  show ?case by (simp add: alloc_ok_def heap_init_def)
next
  case (r_new h v)
  then show ?case by (auto simp: alloc_ok_def State_new_def)
next
  case (r_set h a v)
  then show ?case using same_shape_alloc[OF set_value_shape] by blast
next
  case (r_push h a v)
  then show ?case using same_shape_alloc[OF push_shape] by blast
next
  case (r_sub h a l)
  then show ?case using same_shape_alloc[OF subscribe_shape] by blast
next
  case (r_unsub h a l)
  then show ?case using same_shape_alloc[OF unsubscribe_shape] by blast
next
  case (r_computed h f deps)
  then have "alloc_ok (h\<lparr>computeds := (computeds h)(nextComputed h \<mapsto>
                 \<lparr>c_value = f (arrays h) (valueOf h), c_computeFn = f,
                   c_dependencies = deps, c_listeners = []\<rparr>),
               nextComputed := Suc (nextComputed h)\<rparr>)"
    by (simp add: alloc_ok_def)
  then show ?case by (simp add: ComputedState_new_def Let_def foldl_register_alloc)
next
  case (r_csub h k l)
  then show ?case using same_shape_alloc[OF csubscribe_shape] by blast
next
  case (r_cunsub h k l)
  then show ?case using same_shape_alloc[OF cunsubscribe_shape] by blast
qed

lemma map_follows:
  assumes "states h0 a = Some s0" and "a < nextState h0"
  shows "follows (fst (State_map a fn h0)) (\<lambda>ar vs. fn ar (vs a)) a (snd (State_map a fn h0))"
  using assms
  by (simp add: follows_def State_map_def ComputedState_new_def Let_def register_computed_def
        registered_def set_add_def)

lemma heap_init_reachable: "reachable heap_init"
proof -
  have "heap_init\<lparr>arrays := Map.empty\<rparr> = heap_init" by (simp add: heap_init_def)
  with r_init[of Map.empty] show ?thesis by simp
qed

lemma demo_base_reachable:
  "reachable (State_subscribe 0 3 (snd (State_new (Num 5) heap_init)))"
  by (intro r_sub r_new heap_init_reachable)

lemma demo_base_states:
  "states (State_subscribe 0 3 (snd (State_new (Num 5) heap_init))) 0
     = Some \<lparr>s_value = Num 5, s_listeners = [3], s_computedStates = []\<rparr>"
  by (simp add: State_new_def heap_init_def State_subscribe_def set_add_def)

lemma demo_evolves:
  "evolves (snd (State_map 0 double (State_subscribe 0 3 (snd (State_new (Num 5) heap_init))))) demo"
  unfolding demo_def by (intro e_csub e_refl)

text \<open>
  C2. \<open>cell.map(fn)\<close> on a cell of a heap built by the operations of state.ts returns a
  ComputedState whose cached value is \<open>fn(x0)\<close> at once, \<open>x0\<close> being the value of the
  cell; it is registered with the cell, and no listener has been called. Whatever
  operations of state.ts follow (\<open>evolves\<close>), \<open>cell.value = x\<close> with \<open>x\<close> strictly
  different from the current value leaves \<open>fn(x)\<close> as the value of that ComputedState;
  every invocation of one of its own subscribers in that pass receives \<open>fn(x)\<close>; the
  subscribers are invoked when \<open>fn(x)\<close> differs from the cached value and not at
  all when it is equal.
\<close>

theorem C2_map_computed_follows_cell:
  assumes "reachable h0" and "states h0 a = Some s0"
    and "evolves (snd (State_map a fn h0)) h" and "x \<noteq> valueOf h a"
  shows "cvalueOf (snd (State_map a fn h0)) (fst (State_map a fn h0)) = fn (arrays h0) (s_value s0)
       \<and> fst (State_map a fn h0) \<in> set (registered (snd (State_map a fn h0)) a)
       \<and> trace (snd (State_map a fn h0)) = trace h0
       \<and> cvalueOf (State_set_value a x h) (fst (State_map a fn h0)) = fn (arrays h) x
       \<and> filter (of_computed (fst (State_map a fn h0)))
            (drop (length (trace h)) (trace (State_set_value a x h)))
            = (if fn (arrays h) x \<noteq> cvalueOf h (fst (State_map a fn h0))
               then map (\<lambda>l. Invoke (OfComputed (fst (State_map a fn h0))) l (fn (arrays h) x))
                      (listenersOf h (OfComputed (fst (State_map a fn h0))))
               else [])"
proof -
  let ?k = "fst (State_map a fn h0)" and ?h1 = "snd (State_map a fn h0)"
  from reachable_alloc[OF assms(1)] assms(2) have lt: "a < nextState h0"
    by (simp add: alloc_ok_def)
  have wf0: "heap_wf h0" using assms(1) by (rule reachable_heap_wf)
  have wf1: "heap_wf ?h1"
    using ComputedState_new_wf[OF wf0] by (simp add: State_map_def)
  have wf: "heap_wf h" using assms(3) wf1 by (rule evolves_wf)
  from evolves_follows[OF assms(3) map_follows[OF assms(2) lt]]
  have f: "follows ?k (\<lambda>ar vs. fn ar (vs a)) a h" .
  then obtain c s where c: "computeds h ?k = Some c"
    and cf: "c_computeFn c = (\<lambda>ar vs. fn ar (vs a))"
    and s: "states h a = Some s" and reg: "?k \<in> set (s_computedStates s)"
    by (auto simp: follows_def registered_def split: option.splits)
  from wf s have d: "distinct (s_computedStates s)"
    and sub: "set (s_computedStates s) \<subseteq> dom (computeds h)"
    by (auto simp: heap_wf_def)
  from assms(4) s have x: "x \<noteq> s_value s" by (simp add: valueOf_def)
  from computed_after_set[OF assms(2) s c cf reg d sub x]
  show ?thesis using c by (simp add: cvalueOf_def listenersOf_def)
qed

text \<open>
  An instance of C2 (scenario B of the specification with a subscriber): 5 doubled is 10,
  and after the cell is set to 7 the computed cell holds 14 and tells its subscriber so.
\<close>

theorem C2_witness:
  "cvalueOf (snd (State_map 0 double (State_subscribe 0 3 (snd (State_new (Num 5) heap_init))))) 0
     = Num 10
   \<and> cvalueOf (State_set_value 0 (Num 7) demo) 0 = Num 14
   \<and> filter (of_computed 0) (trace (State_set_value 0 (Num 7) demo))
        = [Invoke (OfComputed 0) 7 (Num 14)]"
proof -
  have x: "Num 7 \<noteq> valueOf demo 0"
    by (simp add: valueOf_def demo_states)
  have k: "fst (State_map 0 double (State_subscribe 0 3 (snd (State_new (Num 5) heap_init)))) = 0"
    by (simp add: State_map_def ComputedState_new_def State_subscribe_def
          State_new_def heap_init_def Let_def)
  note t = C2_map_computed_follows_cell[OF demo_base_reachable demo_base_states demo_evolves x,
             unfolded k]
  from t have 1: "cvalueOf (snd (State_map 0 double
                     (State_subscribe 0 3 (snd (State_new (Num 5) heap_init))))) 0 = Num 10"
    by (simp add: double_def)
  from t have 2: "cvalueOf (State_set_value 0 (Num 7) demo) 0 = Num 14"
    by (simp add: double_def)
  have c: "cvalueOf demo 0 = Num 10" and l: "listenersOf demo (OfComputed 0) = [7]"
    by (simp_all add: cvalueOf_def listenersOf_def demo_computeds)
  from t have "filter (of_computed 0) (drop (length (trace demo)) (trace (State_set_value 0 (Num 7) demo)))
        = (if double (arrays demo) (Num 7) \<noteq> cvalueOf demo 0
           then map (\<lambda>l. Invoke (OfComputed 0) l (double (arrays demo) (Num 7)))
                  (listenersOf demo (OfComputed 0))
           else [])"
    by blast
  then have 3: "filter (of_computed 0) (trace (State_set_value 0 (Num 7) demo))
        = [Invoke (OfComputed 0) 7 (Num 14)]"
    by (simp add: c l demo_trace double_def)
  from 1 2 3 show ?thesis by blast
qed

section \<open>Properties of div\<close>








text \<open>
  A function child that catches the error of a nested div returns normally; the pop
  of the outer div then removes the element of the nested div, and the element of the
  outer div stays on the stack.
\<close>

lemma caught_raise_shifts_pop:
  "fst (run_call (Div [Fn [Try [Div [Fn [Raise ''boom'']]] []]]) (engine_init, document_init))
     = Return ()
   \<and> contextStack (fst (snd (run_call (Div [Fn [Try [Div [Fn [Raise ''boom'']]] []]])
                               (engine_init, document_init)))) = [1]"
  by (simp add: engine_init_def document_init_def createNode_def appendChild_def remove_def
        currentContext_def body_def v2_push_def v2_pop_def)



section \<open>Properties of the render tree\<close>

lemma not_ancestor_childless:
  "(\<forall>m. parentNode d m \<noteq> Some a) \<Longrightarrow> a \<noteq> n \<Longrightarrow> \<not> is_inclusive_ancestor fuel d a n"
proof (induction fuel arbitrary: n)
  case 0
  then show ?case by simp
next
  case (Suc fuel)
  show ?case
  proof (cases "parentNode d n")
    case None
    with Suc.prems show ?thesis by simp
  next
    case (Some q)
    with Suc.prems have "a \<noteq> q" by auto
    with Suc.IH[OF Suc.prems(1)] have "\<not> is_inclusive_ancestor fuel d a q" by simp
    with Some Suc.prems show ?thesis by simp
  qed
qed

lemma wf_fresh_no_parent: "doc_wf d \<Longrightarrow> parentNode d (nextNode d) = None"
  by (cases "parentNode d (nextNode d)") (auto simp: doc_wf_def)

lemma wf_fresh_childless: "doc_wf d \<Longrightarrow> parentNode d m \<noteq> Some (nextNode d)"
  by (auto simp: doc_wf_def)

lemma wf_fresh_not_child: "doc_wf d \<Longrightarrow> nextNode d \<notin> set (childNodes d p)"
  by (auto simp: doc_wf_def)

lemma build_result:
  assumes wf: "doc_wf d" and ok: "attach_ok r d"
  shows "\<exists>d1. build r d = (Return (nextNode d), d1)
           \<and> nextNode d1 = Suc (nextNode d)
           \<and> textContent d1 = (textContent d)(nextNode d := r_content r)
           \<and> (\<forall>m. parentNode d1 m \<noteq> Some (nextNode d))
           \<and> (\<forall>m. m \<noteq> nextNode d \<longrightarrow> parentNode d1 m = parentNode d m)
           \<and> remove (nextNode d) d1
               = d\<lparr>textContent := (textContent d)(nextNode d := r_content r),
                   nextNode := Suc (nextNode d)\<rparr>"
proof (cases "r_attach r")
  case None
  let ?d1 = "d\<lparr>textContent := (textContent d)(nextNode d := r_content r),
                nextNode := Suc (nextNode d)\<rparr>"
  have b: "build r d = (Return (nextNode d), ?d1)"
    using None by (simp add: build_def createNode_def)
  have "remove (nextNode d) ?d1 = ?d1"
    using wf_fresh_no_parent[OF wf] by (simp add: remove_def)
  with b wf_fresh_childless[OF wf] show ?thesis by simp
next
  case (Some ctx)
  let ?n = "nextNode d"
  let ?d0 = "d\<lparr>textContent := (textContent d)(?n := r_content r), nextNode := Suc ?n\<rparr>"
  let ?d1 = "?d0\<lparr>parentNode := (parentNode d)(?n \<mapsto> ctx),
                   childNodes := (childNodes d)(ctx := childNodes d ctx @ [?n])\<rparr>"
  from ok Some have ctx: "ctx < ?n" by (simp add: attach_ok_def)
  have na: "\<not> is_inclusive_ancestor (Suc ?n) ?d0 ?n ctx"
    using wf_fresh_childless[OF wf] ctx by (intro not_ancestor_childless) auto
  have r0: "remove ?n ?d0 = ?d0"
    using wf_fresh_no_parent[OF wf] by (simp add: remove_def)
  have ap: "appendChild ctx ?n ?d0 = Return ?d1"
    using na r0 by (simp add: appendChild_def)
  have b: "build r d = (Return ?n, ?d1)"
    using Some ap by (simp add: build_def createNode_def)
  have ch: "\<forall>m. parentNode ?d1 m \<noteq> Some ?n"
    using wf_fresh_childless[OF wf] ctx by auto
  have "removeAll ?n (childNodes d ctx @ [?n]) = childNodes d ctx"
    using wf_fresh_not_child[OF wf] by simp
  moreover have "(parentNode d)(?n := None) = parentNode d"
    using wf_fresh_no_parent[OF wf] by (simp add: fun_upd_idem)
  ultimately have rm: "remove ?n ?d1 = ?d0"
    by (simp add: remove_def)
  show ?thesis
    using b ch rm by auto
qed

lemma build_append:
  assumes wf: "doc_wf d" and ok: "attach_ok r d" and c: "c < nextNode d"
  shows "\<exists>d1. build r d = (Return (nextNode d), d1)
           \<and> appendChild c (nextNode d) d1
               = Return (placed d (r_content r) c (childNodes d c @ [nextNode d]))"
proof -
  from build_result[OF wf ok] obtain d1 where
    b: "build r d = (Return (nextNode d), d1)"
    and nx: "nextNode d1 = Suc (nextNode d)"
    and ch: "\<forall>m. parentNode d1 m \<noteq> Some (nextNode d)"
    and rm: "remove (nextNode d) d1
               = d\<lparr>textContent := (textContent d)(nextNode d := r_content r),
                   nextNode := Suc (nextNode d)\<rparr>"
    by blast
  have "\<not> is_inclusive_ancestor (nextNode d1) d1 (nextNode d) c"
    using ch c by (intro not_ancestor_childless) auto
  then have "appendChild c (nextNode d) d1
               = Return (placed d (r_content r) c (childNodes d c @ [nextNode d]))"
    by (simp add: appendChild_def rm placed_def)
  with b show ?thesis by blast
qed


lemma placed_wf:
  assumes "doc_wf d" and "p < nextNode d" and "set kids \<subseteq> insert (nextNode d) (set (childNodes d p))"
  shows "doc_wf (placed d content p kids)"
  using assms by (auto simp: doc_wf_def placed_def less_Suc_eq split: if_splits)

section \<open>Properties of ConditionalElement\<close>

lemma document_init_wf: "doc_wf document_init"
  by (simp add: doc_wf_def document_init_def)



lemma remove_wf: "doc_wf d \<Longrightarrow> doc_wf (remove n d)"
  by (auto simp: doc_wf_def remove_def split: option.splits if_splits)







lemma attach_ok_placed: "attach_ok r d \<Longrightarrow> attach_ok r (placed d content p kids)"
  by (simp add: attach_ok_def placed_def split: option.splits)



lemma holds_cong:
  "arrays h = arrays h' \<Longrightarrow> valueOf h = valueOf h' \<Longrightarrow> holds f h = holds f h'"
  by (simp add: holds_def)


lemma call_listener_frame [simp]:
  "arrays (call_listener src h l) = arrays h"
  "states (call_listener src h l) = states h"
  "valueOf (call_listener src h l) = valueOf h"
  by (simp_all add: call_listener_def)










































section \<open>Properties of IteratedElements\<close>

lemma list_heap_items: "currentItems (list_heap xs) (ItemsState 0) = Return xs"
  by (simp add: currentItems_def list_heap_def State_new_def heap_init_def valueOf_def)

lemma wf_fresh_no_children:
  assumes "doc_wf d"
  shows "childNodes d (nextNode d) = []"
proof (rule ccontr)
  assume "childNodes d (nextNode d) \<noteq> []"
  then obtain a where "a \<in> set (childNodes d (nextNode d))"
    by (cases "childNodes d (nextNode d)") auto
  with assms have "nextNode d < nextNode d"
    unfolding doc_wf_def by blast
  then show False by simp
qed

lemma foldl_remove_wf: "doc_wf d \<Longrightarrow> doc_wf (foldl (\<lambda>d' el. remove el d') d els)"
  by (induction els arbitrary: d) (simp_all add: remove_wf)

lemma removeAll_filter: "removeAll e (filter P xs) = filter (\<lambda>x. P x \<and> x \<noteq> e) xs"
  by (induction xs) auto

lemma foldl_remove_fields:
  assumes "distinct els" and "\<forall>e \<in> set els. parentNode d e = Some c"
  shows "parentNode (foldl (\<lambda>d' el. remove el d') d els)
           = (\<lambda>m. if m \<in> set els then None else parentNode d m)
       \<and> childNodes (foldl (\<lambda>d' el. remove el d') d els)
           = (childNodes d)(c := filter (\<lambda>x. x \<notin> set els) (childNodes d c))
       \<and> textContent (foldl (\<lambda>d' el. remove el d') d els) = textContent d
       \<and> nextNode (foldl (\<lambda>d' el. remove el d') d els) = nextNode d"
  using assms
proof (induction els rule: rev_induct)
  case Nil
  show ?case by simp
next
  case (snoc e els)
  define D where "D = foldl (\<lambda>d' el. remove el d') d els"
  from snoc.prems have d: "distinct els" and e: "e \<notin> set els"
    and p: "\<forall>x \<in> set els. parentNode d x = Some c" and pe: "parentNode d e = Some c"
    by simp_all
  from snoc.IH[OF d p] have
    P: "parentNode D = (\<lambda>m. if m \<in> set els then None else parentNode d m)"
    and K: "childNodes D = (childNodes d)(c := filter (\<lambda>x. x \<notin> set els) (childNodes d c))"
    and T: "textContent D = textContent d" and N: "nextNode D = nextNode d"
    unfolding D_def by blast+
  have pD: "parentNode D e = Some c" using e pe by (simp add: P)
  have "parentNode (remove e D) = (\<lambda>m. if m \<in> set (els @ [e]) then None else parentNode d m)"
    using pD by (auto simp: remove_def P)
  moreover have "childNodes (remove e D)
      = (childNodes d)(c := filter (\<lambda>x. x \<notin> set (els @ [e])) (childNodes d c))"
    using pD by (simp add: remove_def K removeAll_filter conj_commute)
  moreover have "textContent (remove e D) = textContent d"
    using pD T by (simp add: remove_def)
  moreover have "nextNode (remove e D) = nextNode d"
    using pD N by (simp add: remove_def)
  moreover have "foldl (\<lambda>d' el. remove el d') d (els @ [e]) = remove e D"
    by (simp add: D_def)
  ultimately show ?case by (simp only:)
qed

lemma attach_ok_mono: "attach_ok r d \<Longrightarrow> nextNode d \<le> nextNode d' \<Longrightarrow> attach_ok r d'"
  by (auto simp: attach_ok_def split: option.splits)

lemma render_items_result:
  assumes "doc_wf d" and "c < nextNode d" and "\<forall>x i. attach_ok (f x i) d"
  shows "\<exists>d'. render_items f c xs i (els, d)
                 = (Return (), els @ [nextNode d ..< nextNode d + length xs], d')
           \<and> nextNode d' = nextNode d + length xs
           \<and> doc_wf d'
           \<and> childNodes d' c = childNodes d c @ [nextNode d ..< nextNode d + length xs]
           \<and> (\<forall>q. q \<noteq> c \<longrightarrow> childNodes d' q = childNodes d q)
           \<and> (\<forall>m < nextNode d. parentNode d' m = parentNode d m
                               \<and> textContent d' m = textContent d m)
           \<and> (\<forall>j < length xs. parentNode d' (nextNode d + j) = Some c
                  \<and> textContent d' (nextNode d + j) = r_content (f (xs ! j) (i + j)))"
  using assms
proof (induction xs arbitrary: i els d)
  case Nil
  then show ?case by simp
next
  case (Cons x xs)
  let ?n = "nextNode d"
  let ?d2 = "placed d (r_content (f x i)) c (childNodes d c @ [?n])"
  from Cons.prems have wf: "doc_wf d" and c: "c < ?n" and ok: "\<forall>x i. attach_ok (f x i) d"
    by simp_all
  from ok have ok1: "attach_ok (f x i) d" by simp
  from build_append[OF wf ok1 c] obtain d1 where
    b: "build (f x i) d = (Return ?n, d1)"
    and a: "appendChild c ?n d1 = Return ?d2" by blast
  have wf2: "doc_wf ?d2" using wf c by (rule placed_wf) auto
  have n2: "nextNode ?d2 = Suc ?n" by (simp add: placed_def)
  have c2: "c < nextNode ?d2" using c n2 by simp
  have ok2: "\<forall>x i. attach_ok (f x i) ?d2"
    using ok by (simp add: attach_ok_placed)
  define rest where "rest = [Suc ?n ..< Suc ?n + length xs]"
  from Cons.IH[OF wf2 c2 ok2, of "Suc i" "els @ [?n]"] obtain d' where
    r: "render_items f c xs (Suc i) (els @ [?n], ?d2)
          = (Return (), (els @ [?n]) @ rest, d')"
    and N: "nextNode d' = Suc ?n + length xs"
    and W: "doc_wf d'"
    and K: "childNodes d' c = childNodes ?d2 c @ rest"
    and Q: "\<forall>q. q \<noteq> c \<longrightarrow> childNodes d' q = childNodes ?d2 q"
    and O: "\<forall>m < Suc ?n. parentNode d' m = parentNode ?d2 m
                         \<and> textContent d' m = textContent ?d2 m"
    and J: "\<forall>j < length xs. parentNode d' (Suc ?n + j) = Some c
                  \<and> textContent d' (Suc ?n + j) = r_content (f (xs ! j) (Suc i + j))"
    unfolding n2 rest_def by blast
  have "?n < ?n + length (x # xs)" by simp
  from upt_conv_Cons[OF this]
  have up: "[?n ..< ?n + length (x # xs)] = ?n # rest"
    by (simp add: rest_def)
  have 1: "render_items f c (x # xs) i (els, d)
             = (Return (), els @ [?n ..< ?n + length (x # xs)], d')"
    unfolding up using b a r by simp
  have 2: "nextNode d' = ?n + length (x # xs)" using N by simp
  have 3: "childNodes d' c = childNodes d c @ [?n ..< ?n + length (x # xs)]"
    unfolding up using K by (simp add: placed_def)
  have 4: "\<forall>q. q \<noteq> c \<longrightarrow> childNodes d' q = childNodes d q"
    using Q by (simp add: placed_def)
  have 5: "\<forall>m < ?n. parentNode d' m = parentNode d m \<and> textContent d' m = textContent d m"
    using O by (simp add: placed_def)
  have 6: "\<forall>j < length (x # xs). parentNode d' (?n + j) = Some c
                  \<and> textContent d' (?n + j) = r_content (f ((x # xs) ! j) (i + j))"
  proof (intro allI impI)
    fix j assume j: "j < length (x # xs)"
    show "parentNode d' (?n + j) = Some c
                  \<and> textContent d' (?n + j) = r_content (f ((x # xs) ! j) (i + j))"
    proof (cases j)
      case 0
      with O show ?thesis by (simp add: placed_def)
    next
      case (Suc j')
      with j J show ?thesis by simp
    qed
  qed
  from 1 2 W 3 4 5 6 show ?case by blast
qed

lemma render_result:
  assumes inv: "iter_inv ie d" and src: "currentItems h (items ie) = Return xs"
  shows "\<exists>d'. IteratedElements_render h (ie, d)
             = (Return (), ie\<lparr>elements := [nextNode d ..< nextNode d + length xs]\<rparr>, d')
         \<and> (\<forall>j < length xs.
               textContent d' (nextNode d + j) = r_content (renderFn ie (xs ! j) j)
             \<and> parentNode d' (nextNode d + j) = Some (container ie))
         \<and> childNodes d' (container ie) = [nextNode d ..< nextNode d + length xs]
         \<and> (\<forall>e \<in> set (elements ie). parentNode d' e = None \<and> e < nextNode d)
         \<and> iter_inv (ie\<lparr>elements := [nextNode d ..< nextNode d + length xs]\<rparr>) d'"
proof -
  let ?c = "container ie" and ?n = "nextNode d"
  define D where "D = foldl (\<lambda>d' el. remove el d') d (elements ie)"
  from inv have wf: "doc_wf d" and c: "?c < ?n"
    and kids: "childNodes d ?c = elements ie" and dist: "distinct (elements ie)"
    and par: "\<forall>e \<in> set (elements ie). parentNode d e = Some ?c"
    and ok: "\<forall>x i. attach_ok (renderFn ie x i) d"
    by (simp_all add: iter_inv_def)
  from foldl_remove_fields[OF dist par] have
    P: "parentNode D = (\<lambda>m. if m \<in> set (elements ie) then None else parentNode d m)"
    and K: "childNodes D = (childNodes d)(?c := filter (\<lambda>x. x \<notin> set (elements ie)) (childNodes d ?c))"
    and N: "nextNode D = ?n"
    unfolding D_def by blast+
  have wfD: "doc_wf D" unfolding D_def using wf by (rule foldl_remove_wf)
  have cD: "?c < nextNode D" using c N by simp
  have okD: "\<forall>x i. attach_ok (renderFn ie x i) D"
    using ok N by (metis attach_ok_mono order_refl)
  have kD: "childNodes D ?c = []" by (simp add: K kids)
  from render_items_result[OF wfD cD okD, of xs 0 "[]"] obtain d' where
    r: "render_items (renderFn ie) ?c xs 0 ([], D) = (Return (), [?n ..< ?n + length xs], d')"
    and N': "nextNode d' = ?n + length xs"
    and W: "doc_wf d'"
    and K': "childNodes d' ?c = [?n ..< ?n + length xs]"
    and O: "\<forall>m < ?n. parentNode d' m = parentNode D m"
    and J: "\<forall>j < length xs. parentNode d' (?n + j) = Some ?c
                  \<and> textContent d' (?n + j) = r_content (renderFn ie (xs ! j) j)"
    unfolding N kD by auto
  have 1: "IteratedElements_render h (ie, d)
             = (Return (), ie\<lparr>elements := [?n ..< ?n + length xs]\<rparr>, d')"
    using src r by (simp add: IteratedElements_render_def D_def[symmetric])
  have old: "\<forall>e \<in> set (elements ie). parentNode d' e = None \<and> e < ?n"
  proof
    fix e assume e: "e \<in> set (elements ie)"
    with par wf have lt: "e < ?n" by (auto simp: doc_wf_def)
    with O e show "parentNode d' e = None \<and> e < ?n" by (simp add: P)
  qed
  have newp: "\<forall>e \<in> set [?n ..< ?n + length xs]. parentNode d' e = Some ?c"
  proof
    fix e assume "e \<in> set [?n ..< ?n + length xs]"
    then have "e - ?n < length xs" and "e = ?n + (e - ?n)" by auto
    with J show "parentNode d' e = Some ?c" by metis
  qed
  have ok': "\<forall>x i. attach_ok (renderFn ie x i) d'"
    using ok N' by (metis attach_ok_mono le_add1)
  have inv': "iter_inv (ie\<lparr>elements := [?n ..< ?n + length xs]\<rparr>) d'"
    using W c N' K' newp ok' by (simp add: iter_inv_def)
  from 1 J K' old inv' show ?thesis by blast
qed

lemma new_list_establishes_inv:
  assumes wf: "doc_wf d0" and b: "body < nextNode d0"
    and ok: "\<forall>x i. attach_ok (rf x i) d0"
    and src: "currentItems h0 its = Return ys"
  shows "\<exists>ie1 h1 d1. IteratedElements_new its rf closure (h0, d0) = (Return (), ie1, h1, d1)
           \<and> iter_inv ie1 d1
           \<and> container ie1 = nextNode d0 \<and> renderFn ie1 = rf \<and> items ie1 = its
           \<and> parentNode d1 (container ie1) = Some body
           \<and> length (elements ie1) = length ys
           \<and> (\<forall>j < length ys.
                 textContent d1 (elements ie1 ! j) = r_content (rf (ys ! j) j)
               \<and> parentNode d1 (elements ie1 ! j) = Some (container ie1))
           \<and> childNodes d1 (container ie1) = elements ie1"
proof -
  let ?c = "nextNode d0"
  let ?r0 = "\<lparr>r_content = [], r_attach = None\<rparr>"
  let ?ie = "\<lparr>items = its, renderFn = rf, elements = [], container = ?c\<rparr>"
  let ?d2 = "placed d0 [] body (childNodes d0 body @ [?c])"
  have ok0: "attach_ok ?r0 d0" by (simp add: attach_ok_def)
  from build_append[OF wf ok0 b] have
    ap: "appendChild body ?c (snd (createNode [] d0)) = Return ?d2"
    by (auto simp: build_def createNode_def)
  have wf2: "doc_wf ?d2" using wf b by (rule placed_wf) auto
  have cb: "?c \<noteq> body" using b by simp
  have inv: "iter_inv ?ie ?d2"
    using wf2 ok wf_fresh_no_children[OF wf] cb
    by (simp add: iter_inv_def attach_ok_placed) (simp add: placed_def)
  have src': "currentItems h0 (items ?ie) = Return ys" using src by simp
  from render_result[OF inv src'] obtain d1 where
    r: "IteratedElements_render h0 (?ie, ?d2)
          = (Return (), ?ie\<lparr>elements := [nextNode ?d2 ..< nextNode ?d2 + length ys]\<rparr>, d1)"
    and J: "\<forall>j < length ys.
               textContent d1 (nextNode ?d2 + j) = r_content (renderFn ?ie (ys ! j) j)
             \<and> parentNode d1 (nextNode ?d2 + j) = Some (container ?ie)"
    and K: "childNodes d1 (container ?ie) = [nextNode ?d2 ..< nextNode ?d2 + length ys]"
    and I: "iter_inv (?ie\<lparr>elements := [nextNode ?d2 ..< nextNode ?d2 + length ys]\<rparr>) d1"
    by blast
  let ?ie1 = "?ie\<lparr>elements := [nextNode ?d2 ..< nextNode ?d2 + length ys]\<rparr>"
  have n: "IteratedElements_new its rf closure (h0, d0)
             = (Return (), ?ie1,
                (case its of ItemsState a \<Rightarrow> State_subscribe a closure h0 | Items r \<Rightarrow> h0), d1)"
    using ap r by (simp add: IteratedElements_new_def createNode_def)
  have pc: "parentNode d1 ?c = Some body"
  proof -
    have "\<exists>d'. render_items rf ?c ys 0 ([], ?d2) = (Return (), [nextNode ?d2 ..< nextNode ?d2 + length ys], d')
            \<and> (\<forall>m < nextNode ?d2. parentNode d' m = parentNode ?d2 m)"
      using render_items_result[of ?d2 ?c rf ys 0 "[]"] wf2 ok
      by (auto simp: attach_ok_placed) (auto simp: placed_def)
    moreover have "IteratedElements_render h0 (?ie, ?d2)
        = (case render_items rf ?c ys 0 ([], ?d2) of (r, els, d2) \<Rightarrow> (r, ?ie\<lparr>elements := els\<rparr>, d2))"
      using src by (simp add: IteratedElements_render_def)
    ultimately have "\<forall>m < nextNode ?d2. parentNode d1 m = parentNode ?d2 m"
      using r by auto
    then show ?thesis by (simp add: placed_def)
  qed
  from n I J K pc show ?thesis
    by (intro exI[of _ ?ie1] exI[of _ d1] exI) auto
qed

text \<open>
  C6. A render pass of an IteratedElements whose source reads as the array \<open>xs\<close>,
  started in a state left by the constructor or by an earlier pass (\<open>iter_inv\<close>):
  the pass returns; the tracked list has \<open>length xs\<close> entries; its \<open>j\<close>-th entry
  is the \<open>j\<close>-th node created in this pass, carries the content of
  \<open>renderFn(xs[j], j)\<close> and is a child of the container; the children of the container
  are exactly the tracked nodes in that order; every node tracked before the pass
  has been removed from the tree and is not among the new ones; and the state
  after the pass is again such a state. The constructor, on a well-formed document,
  performs the first such pass and leaves such a state.
\<close>

theorem C6_list_binding_render:
  assumes inv: "iter_inv ie d" and src: "currentItems h (items ie) = Return xs"
  shows "(\<exists>ie' d'. IteratedElements_render h (ie, d) = (Return (), ie', d')
           \<and> length (elements ie') = length xs
           \<and> (\<forall>j < length xs.
                 elements ie' ! j = nextNode d + j
               \<and> textContent d' (elements ie' ! j) = r_content (renderFn ie (xs ! j) j)
               \<and> parentNode d' (elements ie' ! j) = Some (container ie))
           \<and> childNodes d' (container ie) = elements ie'
           \<and> (\<forall>e \<in> set (elements ie). parentNode d' e = None \<and> e \<notin> set (elements ie'))
           \<and> iter_inv ie' d')
       \<and> (doc_wf d0 \<and> body < nextNode d0 \<and> (\<forall>x i. attach_ok (rf x i) d0)
            \<and> currentItems h0 its = Return ys \<longrightarrow>
          (\<exists>ie1 h1 d1. IteratedElements_new its rf closure (h0, d0) = (Return (), ie1, h1, d1)
             \<and> iter_inv ie1 d1
             \<and> length (elements ie1) = length ys
             \<and> (\<forall>j < length ys.
                   textContent d1 (elements ie1 ! j) = r_content (rf (ys ! j) j)
                 \<and> parentNode d1 (elements ie1 ! j) = Some (container ie1))
             \<and> childNodes d1 (container ie1) = elements ie1))"
proof (intro conjI impI)
  let ?new = "[nextNode d ..< nextNode d + length xs]"
  from render_result[OF inv src] obtain d' where
    r: "IteratedElements_render h (ie, d) = (Return (), ie\<lparr>elements := ?new\<rparr>, d')"
    and J: "\<forall>j < length xs.
               textContent d' (nextNode d + j) = r_content (renderFn ie (xs ! j) j)
             \<and> parentNode d' (nextNode d + j) = Some (container ie)"
    and K: "childNodes d' (container ie) = ?new"
    and O: "\<forall>e \<in> set (elements ie). parentNode d' e = None \<and> e < nextNode d"
    and I: "iter_inv (ie\<lparr>elements := ?new\<rparr>) d'"
    by blast
  have O': "\<forall>e \<in> set (elements ie). parentNode d' e = None \<and> e \<notin> set ?new"
    using O by auto
  show "\<exists>ie' d'. IteratedElements_render h (ie, d) = (Return (), ie', d')
           \<and> length (elements ie') = length xs
           \<and> (\<forall>j < length xs.
                 elements ie' ! j = nextNode d + j
               \<and> textContent d' (elements ie' ! j) = r_content (renderFn ie (xs ! j) j)
               \<and> parentNode d' (elements ie' ! j) = Some (container ie))
           \<and> childNodes d' (container ie) = elements ie'
           \<and> (\<forall>e \<in> set (elements ie). parentNode d' e = None \<and> e \<notin> set (elements ie'))
           \<and> iter_inv ie' d'"
    using r J K O' I
    by (intro exI[of _ "ie\<lparr>elements := ?new\<rparr>"] exI[of _ d']) simp
next
  assume A: "doc_wf d0 \<and> body < nextNode d0 \<and> (\<forall>x i. attach_ok (rf x i) d0)
            \<and> currentItems h0 its = Return ys"
  then have wf: "doc_wf d0" and b: "body < nextNode d0"
    and ok: "\<forall>x i. attach_ok (rf x i) d0" and s: "currentItems h0 its = Return ys"
    by simp_all
  from new_list_establishes_inv[OF wf b ok s, of closure]
  show "\<exists>ie1 h1 d1. IteratedElements_new its rf closure (h0, d0) = (Return (), ie1, h1, d1)
             \<and> iter_inv ie1 d1
             \<and> length (elements ie1) = length ys
             \<and> (\<forall>j < length ys.
                   textContent d1 (elements ie1 ! j) = r_content (rf (ys ! j) j)
                 \<and> parentNode d1 (elements ie1 ! j) = Some (container ie1))
             \<and> childNodes d1 (container ie1) = elements ie1"
    by blast
qed

text \<open>
  An instance of C6: a list over a cell holding [a, b], rendered again after the
  array has become [a, b, c].
\<close>

theorem C6_witness:
  "\<exists>ie1 h1 d1 ie' d'.
     IteratedElements_new (ItemsState 0) text_r 9 (list_heap [Str ''a'', Str ''b''], document_init)
       = (Return (), ie1, h1, d1)
   \<and> length (elements ie1) = 2
   \<and> IteratedElements_render (list_heap [Str ''a'', Str ''b'', Str ''c'']) (ie1, d1)
       = (Return (), ie', d')
   \<and> length (elements ie') = 3
   \<and> textContent d' (elements ie' ! 2) = ''c''
   \<and> childNodes d' (container ie1) = elements ie'"
proof -
  have b: "body < nextNode document_init"
    by (simp add: body_def document_init_def)
  have ok: "\<forall>x i. attach_ok (text_r x i) document_init"
    by (simp add: attach_ok_def text_r_def)
  from new_list_establishes_inv[OF document_init_wf b ok list_heap_items, where closure = 9
         and ys = "[Str ''a'', Str ''b'']"]
  obtain ie1 h1 d1 where
    n: "IteratedElements_new (ItemsState 0) text_r 9 (list_heap [Str ''a'', Str ''b''], document_init)
          = (Return (), ie1, h1, d1)"
    and i: "iter_inv ie1 d1" and f: "renderFn ie1 = text_r" and it: "items ie1 = ItemsState 0"
    and l: "length (elements ie1) = length [Str ''a'', Str ''b'']"
    by blast
  have s: "currentItems (list_heap [Str ''a'', Str ''b'', Str ''c'']) (items ie1)
             = Return [Str ''a'', Str ''b'', Str ''c'']"
    by (simp add: it list_heap_items)
  from C6_list_binding_render[OF i s] obtain ie' d' where
    r: "IteratedElements_render (list_heap [Str ''a'', Str ''b'', Str ''c'']) (ie1, d1)
          = (Return (), ie', d')"
    and l': "length (elements ie') = length [Str ''a'', Str ''b'', Str ''c'']"
    and j: "\<forall>j < length [Str ''a'', Str ''b'', Str ''c''].
                 elements ie' ! j = nextNode d1 + j
               \<and> textContent d' (elements ie' ! j)
                    = r_content (renderFn ie1 ([Str ''a'', Str ''b'', Str ''c''] ! j) j)
               \<and> parentNode d' (elements ie' ! j) = Some (container ie1)"
    and k: "childNodes d' (container ie1) = elements ie'"
    and i': "iter_inv ie' d'"
    by blast
  have "(2::nat) < length [Str ''a'', Str ''b'', Str ''c'']" by simp
  with j have "textContent d' (elements ie' ! 2)
                 = r_content (renderFn ie1 ([Str ''a'', Str ''b'', Str ''c''] ! 2) 2)"
    by blast
  then have "textContent d' (elements ie' ! 2) = ''c''"
    by (simp add: f text_r_def)
  with n l r l' k show ?thesis by auto
qed

end
